theory Spec2Isabelle
  imports Complex_Main "HOL-Library.Monad_Syntax"
begin

unbundle bit_operations_syntax

section \<open>Shallow embedding of \<^verbatim>\<open>src/modules/parser.ts\<close>\<close>

text \<open>
  The beatmap text is a \<^typ>\<open>string\<close>: a list of code units, here the 8-bit ones
  (Latin-1), which include every character the grammar names.
  Numbers are exact in this embedding: the integer fields, read by \<^verbatim>\<open>parseInt\<close> from
  captures of \<^verbatim>\<open>\d+\<close>, are \<^typ>\<open>int\<close>, and the values read by \<^verbatim>\<open>parseFloat\<close> are
  rationals, with \<open>NaN\<close> kept as a value of its own where the source can produce it. The
  code computes in IEEE doubles. The two agree on integers below \<open>2^53\<close> and on what
  is computed from them without rounding; they differ where the code rounds: a decimal
  such as 9.28 or 5.6 is no double, an integer above \<open>2^53\<close> is rounded, and a very long
  run of digits becomes \<^verbatim>\<open>Infinity\<close>. No statement below is about the value of a
  product or a quotient outside the exact range, except where it says so.
\<close>

subsection \<open>Characters\<close>

definition is_digit :: "char \<Rightarrow> bool" where
  \<comment> \<open>the class \<^verbatim>\<open>\d\<close>\<close>
  "is_digit c = (c \<in> set ''0123456789'')"

definition is_lt :: "char \<Rightarrow> bool" where
  \<comment> \<open>line terminators, the characters \<^verbatim>\<open>.\<close> does not match: LF and CR\<close>
  "is_lt c = (c \<in> set [CHR 0x0A, CHR 0x0D])"

definition is_space :: "char \<Rightarrow> bool" where
  \<comment> \<open>the class \<^verbatim>\<open>\s\<close>, also what \<^verbatim>\<open>trim\<close> strips: TAB, LF, VT, FF, CR, space, NBSP\<close>
  "is_space c = (c \<in> set [CHR 0x09, CHR 0x0A, CHR 0x0B, CHR 0x0C, CHR 0x0D, CHR 0x20, CHR 0xA0])"

definition lower_char :: "char \<Rightarrow> char" where
  \<comment> \<open>case folding of the flag \<^verbatim>\<open>i\<close> against the ASCII patterns of the source\<close>
  "lower_char c =
     (case map_of (zip ''ABCDEFGHIJKLMNOPQRSTUVWXYZ'' ''abcdefghijklmnopqrstuvwxyz'') c of
        Some l \<Rightarrow> l
      | None \<Rightarrow> c)"

definition trim :: "string \<Rightarrow> string" where
  "trim s = rev (dropWhile is_space (rev (dropWhile is_space s)))"

definition startsWith :: "string \<Rightarrow> string \<Rightarrow> bool" where
  "startsWith s p = (take (length p) s = p)"

subsection \<open>Numbers\<close>

datatype jsnum = NaN | Num rat

definition digit_val :: "char \<Rightarrow> nat" where
  "digit_val c = of_char c - 48"

definition digits_val :: "string \<Rightarrow> nat" where
  "digits_val ds = foldl (\<lambda>n c. 10 * n + digit_val c) 0 ds"

definition parseInt :: "string \<Rightarrow> int" where
  \<comment> \<open>\<^verbatim>\<open>parseInt\<close> on a capture of \<^verbatim>\<open>\d+\<close>\<close>
  "parseInt ds = int (digits_val ds)"

definition parseFloat :: "string \<Rightarrow> jsnum" where
  \<comment> \<open>\<^verbatim>\<open>parseFloat\<close> on a string of digits, dots and a leading minus: the longest prefix
      that is a decimal literal, \<open>NaN\<close> when that prefix holds no digit\<close>
  "parseFloat s =
     (let neg = (take 1 s = ''-'');
          u = (if neg then drop 1 s else s);
          ip = takeWhile is_digit u;
          r = dropWhile is_digit u;
          fp = (if take 1 r = ''.'' then takeWhile is_digit (drop 1 r) else [])
      in if ip = [] \<and> fp = [] then NaN
         else let v = of_nat (digits_val ip) + of_nat (digits_val fp) / 10 ^ length fp
              in Num (if neg then - v else v))"

definition decimal :: "string \<Rightarrow> rat" where
  \<comment> \<open>\<^verbatim>\<open>parseFloat\<close> on a capture of \<^verbatim>\<open>-?\d+(?:\.\d+)?\<close>, which always holds a digit\<close>
  "decimal s = (case parseFloat s of Num v \<Rightarrow> v | NaN \<Rightarrow> 0)"

subsection \<open>Data model\<close>

record TimingPoint =
  time :: rat
  beatLength :: rat
  meter :: int
  sampleSet :: int
  sampleIndex :: int
  volume :: int
  uninherited :: bool
  effects :: int

record HitObject =
  x :: int
  y :: int
  time :: int
  type :: int
  hitSound :: int
  objectParams :: "string option"
  hitSample :: "string option"
  column :: "int option"
  isLongNote :: "bool option"
  endTime :: "int option"

record MapMetadata =
  title :: "string option"
  artist :: "string option"
  creator :: "string option"
  version :: "string option"
  audioFilename :: "string option"
  mode :: "int option"
  circleSize :: "jsnum option"

record ParsedMap =
  hitObjects :: "HitObject list"
  timingPoints :: "TimingPoint list"
  metadata :: MapMetadata
  noteCount :: nat
  longNoteCount :: nat
  duration :: int
  keyCount :: rat

datatype error = Error string | TypeError

definition HOLD :: int where
  "HOLD = 128"

subsection \<open>Locating sections\<close>

fun ci_prefix :: "string \<Rightarrow> string \<Rightarrow> bool" where
  \<comment> \<open>the literal pattern \<open>p\<close> matches at the head of the text, letter case ignored\<close>
  "ci_prefix [] s = True"
| "ci_prefix (p # ps) [] = False"
| "ci_prefix (p # ps) (c # cs) = (lower_char p = lower_char c \<and> ci_prefix ps cs)"

fun after_first_ci :: "string \<Rightarrow> string \<Rightarrow> string option" where
  \<comment> \<open>the text that follows the leftmost match of the literal pattern\<close>
  "after_first_ci p [] = (if p = [] then Some [] else None)"
| "after_first_ci p (c # cs) =
     (if ci_prefix p (c # cs) then Some (drop (length p) (c # cs)) else after_first_ci p cs)"

fun before_first_ci :: "string \<Rightarrow> string \<Rightarrow> string" where
  \<comment> \<open>the text that precedes the leftmost match of the literal pattern, all of it when
      there is none\<close>
  "before_first_ci p [] = []"
| "before_first_ci p (c # cs) =
     (if ci_prefix p (c # cs) then [] else c # before_first_ci p cs)"

definition split_second :: "string \<Rightarrow> string \<Rightarrow> string option" where
  \<comment> \<open>\<^verbatim>\<open>text.split(/header/i)[1]\<close>: the piece between the first and the second match of
      the header, \<open>None\<close> for \<^verbatim>\<open>undefined\<close>\<close>
  "split_second p s =
     (case after_first_ci p s of
        None \<Rightarrow> None
      | Some r \<Rightarrow> Some (before_first_ci p r))"

definition section_match :: "string \<Rightarrow> string \<Rightarrow> string option" where
  \<comment> \<open>capture 1 of \<^verbatim>\<open>/header([\s\S]*?)(?=\[|$)/i\<close>: the lazy body stops at the first
      bracket after the header, or at the end of the text\<close>
  "section_match p s =
     (case after_first_ci p s of
        None \<Rightarrow> None
      | Some r \<Rightarrow> Some (takeWhile (\<lambda>c. c \<noteq> CHR ''['') r))"

subsection \<open>Lines of a section\<close>

fun cons_line :: "char \<Rightarrow> string list \<Rightarrow> string list" where
  "cons_line c [] = [[c]]"
| "cons_line c (l # ls) = (c # l) # ls"

fun split_lines :: "string \<Rightarrow> string list" where
  \<comment> \<open>\<^verbatim>\<open>split(/\r?\n/)\<close>\<close>
  "split_lines [] = [[]]"
| "split_lines (c # cs) =
     (if c = CHR 0x0A then [] # split_lines cs
      else if c = CHR 0x0D \<and> take 1 cs = [CHR 0x0A] then [] # split_lines (drop 1 cs)
      else cons_line c (split_lines cs))"

definition keep_line :: "string \<Rightarrow> bool" where
  "keep_line line = (length line > 0 \<and> \<not> startsWith line ''//'' \<and> \<not> startsWith line ''['')"

definition section_lines :: "string \<Rightarrow> string list" where
  "section_lines sec = filter keep_line (map trim (split_lines sec))"

subsection \<open>The regular expressions\<close>

text \<open>
  Each matcher reads the text from the left and returns the captures, or \<open>None\<close> when
  the expression does not match. A greedy \<^verbatim>\<open>\d+\<close> is the longest run of digits: every
  expression of the source follows it by a character that is not a digit or by the end,
  so no shorter run can succeed.
\<close>

definition digits1 :: "string \<Rightarrow> (string \<times> string) option" where
  \<comment> \<open>\<^verbatim>\<open>(\d+)\<close>: the capture and the text after it\<close>
  "digits1 s =
     (let d = takeWhile is_digit s
      in if d = [] then None else Some (d, dropWhile is_digit s))"

definition lit :: "char \<Rightarrow> string \<Rightarrow> string option" where
  \<comment> \<open>one literal character\<close>
  "lit a s = (case s of [] \<Rightarrow> None | c # r \<Rightarrow> if c = a then Some r else None)"

definition decimal1 :: "string \<Rightarrow> (string \<times> string) option" where
  \<comment> \<open>\<^verbatim>\<open>(-?\d+(?:\.\d+)?)\<close>\<close>
  "decimal1 s =
     (let sg = (if take 1 s = ''-'' then ''-'' else [])
      in case digits1 (drop (length sg) s) of
           None \<Rightarrow> None
         | Some (ip, r) \<Rightarrow>
             (case (case lit (CHR ''.'') r of None \<Rightarrow> None | Some r' \<Rightarrow> digits1 r') of
                Some (fp, r'') \<Rightarrow> Some (sg @ ip @ ''.'' @ fp, r'')
              | None \<Rightarrow> Some (sg @ ip, r)))"

definition flag1 :: "string \<Rightarrow> (string \<times> string) option" where
  \<comment> \<open>\<^verbatim>\<open>([01])\<close>\<close>
  "flag1 s =
     (case s of
        [] \<Rightarrow> None
      | c # r \<Rightarrow> if c = CHR ''0'' \<or> c = CHR ''1'' then Some ([c], r) else None)"

definition timingRegex ::
  "string \<Rightarrow> (string \<times> string \<times> string \<times> string \<times> string \<times> string \<times> string \<times> string) option" where
  \<comment> \<open>\<^verbatim>\<open>/^(-?\d+(?:\.\d+)?),(-?\d+(?:\.\d+)?),(\d+),(\d+),(\d+),(\d+),([01]),(\d+)$/\<close>\<close>
  "timingRegex line =
     do {
       (t, r) \<leftarrow> decimal1 line;
       r \<leftarrow> lit (CHR '','') r;
       (b, r) \<leftarrow> decimal1 r;
       r \<leftarrow> lit (CHR '','') r;
       (m, r) \<leftarrow> digits1 r;
       r \<leftarrow> lit (CHR '','') r;
       (ss, r) \<leftarrow> digits1 r;
       r \<leftarrow> lit (CHR '','') r;
       (si, r) \<leftarrow> digits1 r;
       r \<leftarrow> lit (CHR '','') r;
       (v, r) \<leftarrow> digits1 r;
       r \<leftarrow> lit (CHR '','') r;
       (u, r) \<leftarrow> flag1 r;
       r \<leftarrow> lit (CHR '','') r;
       (e, r) \<leftarrow> digits1 r;
       if r = [] then Some (t, b, m, ss, si, v, u, e) else None
     }"

text \<open>
  The tail \<^verbatim>\<open>(?:,([^,]+))?(?:,(.+))?$\<close> of the hit-object expression. Both groups are
  greedy and optional, so the first is tried before it is skipped. Inside the first
  group \<^verbatim>\<open>[^,]+\<close> takes the whole run up to the next comma; a shorter run leaves a
  character that is no comma in front of the rest of the tail, which then cannot match.
  The second group must reach the end of the line, and \<^verbatim>\<open>.\<close> matches no line terminator.
\<close>

definition sample_tail :: "string \<Rightarrow> string option option" where
  \<comment> \<open>\<^verbatim>\<open>(?:,(.+))?$\<close>: \<open>Some (Some h)\<close> with the group, \<open>Some None\<close> without it\<close>
  "sample_tail r =
     (case r of
        [] \<Rightarrow> Some None
      | c # h \<Rightarrow> if c = CHR '','' \<and> h \<noteq> [] \<and> \<not> list_ex is_lt h then Some (Some h) else None)"

definition params_tail :: "string \<Rightarrow> (string option \<times> string option) option" where
  \<comment> \<open>\<^verbatim>\<open>(?:,([^,]+))?(?:,(.+))?$\<close>\<close>
  "params_tail r =
     (case (case lit (CHR '','') r of
              None \<Rightarrow> None
            | Some r' \<Rightarrow>
                (let p = takeWhile (\<lambda>c. c \<noteq> CHR '','') r'
                 in if p = [] then None
                    else map_option (Pair (Some p))
                           (sample_tail (dropWhile (\<lambda>c. c \<noteq> CHR '','') r')))) of
        Some res \<Rightarrow> Some res
      | None \<Rightarrow> map_option (Pair None) (sample_tail r))"

definition hitObjectRegex ::
  "string \<Rightarrow> (string \<times> string \<times> string \<times> string \<times> string \<times> string option \<times> string option) option" where
  \<comment> \<open>\<^verbatim>\<open>/^(\d+),(\d+),(\d+),(\d+),(\d+)(?:,([^,]+))?(?:,(.+))?$/\<close>\<close>
  "hitObjectRegex line =
     do {
       (xs, r) \<leftarrow> digits1 line;
       r \<leftarrow> lit (CHR '','') r;
       (ys, r) \<leftarrow> digits1 r;
       r \<leftarrow> lit (CHR '','') r;
       (ts, r) \<leftarrow> digits1 r;
       r \<leftarrow> lit (CHR '','') r;
       (tys, r) \<leftarrow> digits1 r;
       r \<leftarrow> lit (CHR '','') r;
       (hs, r) \<leftarrow> digits1 r;
       (op, hsm) \<leftarrow> params_tail r;
       Some (xs, ys, ts, tys, hs, op, hsm)
     }"

definition endTime_at :: "string \<Rightarrow> string option" where
  \<comment> \<open>\<^verbatim>\<open>(\d+):(\d+):(\d+):(\d+):(.+)\<close> at the head of the text: capture 1\<close>
  "endTime_at s =
     do {
       (e, r) \<leftarrow> digits1 s;
       r \<leftarrow> lit (CHR '':'') r;
       (_, r) \<leftarrow> digits1 r;
       r \<leftarrow> lit (CHR '':'') r;
       (_, r) \<leftarrow> digits1 r;
       r \<leftarrow> lit (CHR '':'') r;
       (_, r) \<leftarrow> digits1 r;
       r \<leftarrow> lit (CHR '':'') r;
       if r \<noteq> [] \<and> \<not> is_lt (hd r) then Some e else None
     }"

fun endTimeMatch :: "string \<Rightarrow> string option" where
  \<comment> \<open>\<^verbatim>\<open>objectParams.match(/(\d+):(\d+):(\d+):(\d+):(.+)/)\<close>: the expression is not
      anchored, the leftmost start that matches wins\<close>
  "endTimeMatch [] = None"
| "endTimeMatch (c # cs) =
     (case endTime_at (c # cs) of
        Some e \<Rightarrow> Some e
      | None \<Rightarrow> endTimeMatch cs)"

text \<open>
  The field expressions of the metadata sections are not anchored: the key may start
  anywhere in the section, and the leftmost start at which the whole expression matches
  wins. \<^verbatim>\<open>\s\<close> matches line terminators, so the greedy \<^verbatim>\<open>\s*\<close> may walk over line ends;
  when \<^verbatim>\<open>(.+)\<close> finds nothing after it, \<^verbatim>\<open>\s*\<close> gives characters back.
\<close>

definition dots :: "string \<Rightarrow> string option" where
  \<comment> \<open>\<^verbatim>\<open>(.+)\<close> at the end of an expression: the longest run without a line terminator\<close>
  "dots s =
     (let v = takeWhile (\<lambda>c. \<not> is_lt c) s
      in if v = [] then None else Some v)"

fun ws_dots :: "string \<Rightarrow> string option" where
  \<comment> \<open>\<^verbatim>\<open>\s*(.+)\<close>\<close>
  "ws_dots [] = None"
| "ws_dots (c # cs) =
     (case (if is_space c then ws_dots cs else None) of
        Some v \<Rightarrow> Some v
      | None \<Rightarrow> dots (c # cs))"

definition ws_digits :: "string \<Rightarrow> string option" where
  \<comment> \<open>\<^verbatim>\<open>\s*(\d+)\<close>: no digit is a space, so \<^verbatim>\<open>\s*\<close> keeps the whole run of spaces\<close>
  "ws_digits s = map_option fst (digits1 (dropWhile is_space s))"

definition ws_number :: "string \<Rightarrow> string option" where
  \<comment> \<open>\<^verbatim>\<open>\s*([\d.]+)\<close>\<close>
  "ws_number s =
     (let v = takeWhile (\<lambda>c. is_digit c \<or> c = CHR ''.'') (dropWhile is_space s)
      in if v = [] then None else Some v)"

fun key_match :: "string \<Rightarrow> (string \<Rightarrow> string option) \<Rightarrow> string \<Rightarrow> string option" where
  \<comment> \<open>\<^verbatim>\<open>body.match(/Key:<rest>/i)\<close>: capture 1 at the leftmost start that matches\<close>
  "key_match key rest [] = None"
| "key_match key rest (c # cs) =
     (case (if ci_prefix key (c # cs) then rest (drop (length key) (c # cs)) else None) of
        Some v \<Rightarrow> Some v
      | None \<Rightarrow> key_match key rest cs)"

subsection \<open>parseMetadata\<close>

definition no_metadata :: MapMetadata where
  "no_metadata =
     \<lparr>title = None, artist = None, creator = None, version = None,
      audioFilename = None, mode = None, circleSize = None\<rparr>"

definition parseGeneral :: "string \<Rightarrow> MapMetadata \<Rightarrow> MapMetadata" where
  "parseGeneral osuContent md =
     (case section_match ''[General]'' osuContent of
        None \<Rightarrow> md
      | Some generalMatch \<Rightarrow>
          (let audioMatch = key_match ''AudioFilename:'' ws_dots generalMatch;
               modeMatch = key_match ''Mode:'' ws_digits generalMatch;
               md = (case audioMatch of
                       None \<Rightarrow> md
                     | Some a \<Rightarrow> md\<lparr>audioFilename := Some (trim a)\<rparr>);
               md = (case modeMatch of
                       None \<Rightarrow> md
                     | Some m \<Rightarrow> md\<lparr>mode := Some (parseInt m)\<rparr>)
           in md))"

definition parseMetadataSection :: "string \<Rightarrow> MapMetadata \<Rightarrow> MapMetadata" where
  "parseMetadataSection osuContent md =
     (case section_match ''[Metadata]'' osuContent of
        None \<Rightarrow> md
      | Some metadataMatch \<Rightarrow>
          (let titleMatch = key_match ''Title:'' ws_dots metadataMatch;
               artistMatch = key_match ''Artist:'' ws_dots metadataMatch;
               creatorMatch = key_match ''Creator:'' ws_dots metadataMatch;
               versionMatch = key_match ''Version:'' ws_dots metadataMatch;
               md = (case titleMatch of
                       None \<Rightarrow> md
                     | Some t \<Rightarrow> md\<lparr>title := Some (trim t)\<rparr>);
               md = (case artistMatch of
                       None \<Rightarrow> md
                     | Some a \<Rightarrow> md\<lparr>artist := Some (trim a)\<rparr>);
               md = (case creatorMatch of
                       None \<Rightarrow> md
                     | Some c \<Rightarrow> md\<lparr>creator := Some (trim c)\<rparr>);
               md = (case versionMatch of
                       None \<Rightarrow> md
                     | Some v \<Rightarrow> md\<lparr>version := Some (trim v)\<rparr>)
           in md))"

definition parseDifficulty :: "string \<Rightarrow> MapMetadata \<Rightarrow> MapMetadata" where
  "parseDifficulty osuContent md =
     (case section_match ''[Difficulty]'' osuContent of
        None \<Rightarrow> md
      | Some difficultyMatch \<Rightarrow>
          (case key_match ''CircleSize:'' ws_number difficultyMatch of
             None \<Rightarrow> md
           | Some cs \<Rightarrow> md\<lparr>circleSize := Some (parseFloat cs)\<rparr>))"

definition parseMetadata :: "string \<Rightarrow> MapMetadata" where
  "parseMetadata osuContent =
     parseDifficulty osuContent
       (parseMetadataSection osuContent
          (parseGeneral osuContent no_metadata))"

subsection \<open>parseTimingPoints\<close>

definition timingPoint :: "string \<Rightarrow> TimingPoint option" where
  \<comment> \<open>the body of the loop: a line that does not match is skipped\<close>
  "timingPoint line =
     (case timingRegex line of
        None \<Rightarrow> None
      | Some (t, b, m, ss, si, v, u, e) \<Rightarrow>
          Some \<lparr>TimingPoint.time = decimal t, beatLength = decimal b, meter = parseInt m,
                sampleSet = parseInt ss, sampleIndex = parseInt si, volume = parseInt v,
                uninherited = (u = ''1''), effects = parseInt e\<rparr>)"

definition parseTimingPoints :: "string \<Rightarrow> TimingPoint list" where
  \<comment> \<open>\<^verbatim>\<open>!timingSection\<close> holds for \<^verbatim>\<open>undefined\<close> and for the empty string; the sort is by
      \<^verbatim>\<open>a.time - b.time\<close>, stable\<close>
  "parseTimingPoints osuContent =
     (case split_second ''[TimingPoints]'' osuContent of
        None \<Rightarrow> []
      | Some timingSection \<Rightarrow>
          if timingSection = [] then []
          else sort_key TimingPoint.time
                 (List.map_filter timingPoint (section_lines timingSection)))"

subsection \<open>parseHitObjects\<close>

definition falsy_num :: "int option \<Rightarrow> bool" where
  \<comment> \<open>\<^verbatim>\<open>!n\<close> for an optional number: unset, or zero\<close>
  "falsy_num n = (case n of None \<Rightarrow> True | Some v \<Rightarrow> v = 0)"

definition derive :: "rat \<Rightarrow> HitObject \<Rightarrow> HitObject" where
  \<comment> \<open>the derived fields: column, isLongNote, endTime; the column is computed exactly
      here, in doubles by the code\<close>
  "derive kc obj0 =
     (let obj = obj0\<lparr>column := Some \<lfloor>of_int (x obj0) * kc / 512\<rfloor>\<rparr>;
          obj = obj\<lparr>isLongNote := Some ((type obj AND HOLD) \<noteq> 0)\<rparr>;
          obj = (case objectParams obj of
                   None \<Rightarrow> obj
                 | Some p \<Rightarrow>
                     if isLongNote obj = Some True \<and> p \<noteq> []
                     then (case endTimeMatch p of
                             None \<Rightarrow> obj
                           | Some e \<Rightarrow> obj\<lparr>endTime := Some (parseInt e)\<rparr>)
                     else obj);
          obj = (if falsy_num (endTime obj) then obj\<lparr>endTime := Some (time obj)\<rparr> else obj)
      in obj)"

definition hitObject :: "rat \<Rightarrow> string \<Rightarrow> HitObject option" where
  \<comment> \<open>the body of the loop: a line that does not match is skipped\<close>
  "hitObject kc line =
     (case hitObjectRegex line of
        None \<Rightarrow> None
      | Some (xs, ys, ts, tys, hs, op, hsm) \<Rightarrow>
          Some (derive kc
                 \<lparr>x = parseInt xs, y = parseInt ys, time = parseInt ts, type = parseInt tys,
                  hitSound = parseInt hs, objectParams = op, hitSample = hsm,
                  column = None, isLongNote = None, endTime = None\<rparr>))"

definition parseHitObjects :: "string \<Rightarrow> rat \<Rightarrow> error + HitObject list" where
  \<comment> \<open>\<^verbatim>\<open>!hitObjectSection\<close> holds for \<^verbatim>\<open>undefined\<close> and for the empty string\<close>
  "parseHitObjects osuContent kc =
     (case split_second ''[HitObjects]'' osuContent of
        None \<Rightarrow> Inl (Error ''Section [HitObjects] introuvable dans le fichier .osu'')
      | Some hitObjectSection \<Rightarrow>
          if hitObjectSection = []
          then Inl (Error ''Section [HitObjects] introuvable dans le fichier .osu'')
          else Inr (sort_key time
                      (List.map_filter (hitObject kc) (section_lines hitObjectSection))))"

subsection \<open>parseOsuFile\<close>

definition or4 :: "jsnum option \<Rightarrow> rat" where
  \<comment> \<open>\<^verbatim>\<open>metadata.circleSize || 4\<close>: unset, \<open>NaN\<close> and 0 are falsy\<close>
  "or4 cs = (case cs of None \<Rightarrow> 4 | Some NaN \<Rightarrow> 4 | Some (Num v) \<Rightarrow> if v = 0 then 4 else v)"

definition endTime_or_time :: "HitObject \<Rightarrow> int" where
  \<comment> \<open>\<^verbatim>\<open>obj.endTime || obj.time\<close>\<close>
  "endTime_or_time obj =
     (case endTime obj of
        None \<Rightarrow> time obj
      | Some e \<Rightarrow> if e = 0 then time obj else e)"

definition parseOsuFile :: "string \<Rightarrow> error + ParsedMap" where
  \<comment> \<open>the duration is \<^verbatim>\<open>Math.max\<close> over all objects when there is one, else 0\<close>
  "parseOsuFile osuContent =
     (let md = parseMetadata osuContent;
          tps = parseTimingPoints osuContent
      in case parseHitObjects osuContent (or4 (circleSize md)) of
           Inl e \<Rightarrow> Inl e
         | Inr objs \<Rightarrow>
             (let n = length objs;
                  ln = length (filter (\<lambda>obj. isLongNote obj = Some True) objs);
                  d = (case map endTime_or_time objs of
                         [] \<Rightarrow> 0
                       | v # vs \<Rightarrow> fold max vs v);
                  kc = or4 (circleSize md)
              in Inr \<lparr>hitObjects = objs, timingPoints = tps, metadata = md,
                      noteCount = n, longNoteCount = ln, duration = d, keyCount = kc\<rparr>))"

subsection \<open>organizeNotesByColumn\<close>

definition col_of :: "HitObject \<Rightarrow> int" where
  \<comment> \<open>\<^verbatim>\<open>obj.column ?? 0\<close>\<close>
  "col_of obj = (case column obj of None \<Rightarrow> 0 | Some c \<Rightarrow> c)"

fun organize_loop ::
  "HitObject list \<Rightarrow> rat \<Rightarrow> HitObject list list \<Rightarrow> error + HitObject list list" where
  \<comment> \<open>the loop over the objects; \<^verbatim>\<open>columns[col]\<close> beyond the array is \<^verbatim>\<open>undefined\<close>, and
      \<^verbatim>\<open>push\<close> on it throws\<close>
  "organize_loop [] kc columns = Inr columns"
| "organize_loop (obj # objs) kc columns =
     (let col = col_of obj
      in if col \<ge> 0 \<and> of_int col < kc
         then (if nat col < length columns
               then organize_loop objs kc (columns[nat col := columns ! nat col @ [obj]])
               else Inl TypeError)
         else organize_loop objs kc columns)"

definition organizeNotesByColumn :: "HitObject list \<Rightarrow> rat \<Rightarrow> error + HitObject list list" where
  \<comment> \<open>\<^verbatim>\<open>Array.from({ length: keyCount }, () => [])\<close> has the length \<open>keyCount\<close> truncated,
      0 when it is negative\<close>
  "organizeNotesByColumn objs kc = organize_loop objs kc (replicate (nat \<lfloor>kc\<rfloor>) [])"

subsection \<open>Notions the statements use\<close>

definition decoded :: "HitObject \<Rightarrow> int option" where
  \<comment> \<open>the release time the parser decodes for an object: the object has the HOLD bit, a
      6th field, and the field matches the release-time expression\<close>
  "decoded obj =
     (if (type obj AND HOLD) \<noteq> 0
      then (case objectParams obj of
              None \<Rightarrow> None
            | Some p \<Rightarrow> map_option parseInt (endTimeMatch p))
      else None)"

definition ci_eq :: "string \<Rightarrow> string \<Rightarrow> bool" where
  \<comment> \<open>two texts that differ in letter case only\<close>
  "ci_eq a b = (map lower_char a = map lower_char b)"



definition key_at :: "string \<Rightarrow> (string \<Rightarrow> string option) \<Rightarrow> string \<Rightarrow> string option" where
  \<comment> \<open>the field expression at the head of the text: the step of \<open>key_match\<close>\<close>
  "key_at K rest t = (if ci_prefix K t then rest (drop (length K) t) else None)"

section \<open>Properties\<close>

subsection \<open>Hit objects\<close>

lemma derive_frame:
  "x (derive kc obj) = x obj" "y (derive kc obj) = y obj" "time (derive kc obj) = time obj"
  "type (derive kc obj) = type obj" "hitSound (derive kc obj) = hitSound obj"
  "objectParams (derive kc obj) = objectParams obj" "hitSample (derive kc obj) = hitSample obj"
  by (simp_all add: derive_def Let_def split: option.splits)

lemma derive_column:
  "column (derive kc obj) = Some \<lfloor>of_int (x obj) * kc / 512\<rfloor>"
  by (simp add: derive_def Let_def split: option.splits)

lemma derive_isLongNote:
  "isLongNote (derive kc obj) = Some ((type obj AND HOLD) \<noteq> 0)"
  by (simp add: derive_def Let_def split: option.splits)

lemma derive_endTime:
  "endTime obj = None \<Longrightarrow>
   endTime (derive kc obj) =
     Some (case decoded obj of
             None \<Rightarrow> time obj
           | Some n \<Rightarrow> if n = 0 then time obj else n)"
  by (cases "objectParams obj")
     (auto simp add: derive_def Let_def decoded_def falsy_num_def split: option.splits)

lemma hitObject_Some:
  assumes "hitObject kc line = Some obj"
  shows "column obj = Some \<lfloor>of_int (x obj) * kc / 512\<rfloor>"
    and "isLongNote obj = Some ((type obj AND HOLD) \<noteq> 0)"
    and "endTime obj = Some (case decoded obj of None \<Rightarrow> time obj | Some n \<Rightarrow> if n = 0 then time obj else n)"
proof -
  from assms obtain obj0 where o: "obj = derive kc obj0" and e: "endTime obj0 = None"
    by (auto simp: hitObject_def split: option.splits)
  have d: "decoded obj = decoded obj0" by (simp add: decoded_def o derive_frame)
  show "column obj = Some \<lfloor>of_int (x obj) * kc / 512\<rfloor>"
    by (simp add: o derive_column derive_frame)
  show "isLongNote obj = Some ((type obj AND HOLD) \<noteq> 0)"
    by (simp add: o derive_isLongNote derive_frame)
  show "endTime obj = Some (case decoded obj of None \<Rightarrow> time obj | Some n \<Rightarrow> if n = 0 then time obj else n)"
    unfolding d by (simp add: o derive_endTime[OF e] derive_frame split: option.splits)
qed

lemma in_set_map_filter:
  "v \<in> set (List.map_filter f xs) \<longleftrightarrow> (\<exists>u \<in> set xs. f u = Some v)"
  by (induction xs) (auto split: option.splits)

lemma parseHitObjects_set:
  assumes "parseHitObjects s kc = Inr objs" "obj \<in> set objs"
  shows "\<exists>line. hitObject kc line = Some obj"
  using assms
  by (auto simp: parseHitObjects_def in_set_map_filter split: option.splits if_splits)

lemma parseHitObjects_sorted:
  assumes "parseHitObjects s kc = Inr objs"
  shows "sorted (map time objs)"
  using assms
  by (auto simp: parseHitObjects_def split: option.splits if_splits)

lemma parseTimingPoints_sorted: "sorted (map TimingPoint.time (parseTimingPoints s))"
  by (auto simp: parseTimingPoints_def split: option.splits if_splits)

lemma takeWhile_all:
  "list_all P d \<Longrightarrow> r = [] \<or> \<not> P (hd r) \<Longrightarrow> takeWhile P (d @ r) = d \<and> dropWhile P (d @ r) = r"
  by (induction d) (auto simp: takeWhile_eq_Nil_iff dropWhile_eq_self_iff)

lemma digits1_iff:
  "digits1 s = Some (d, r) \<longleftrightarrow>
     s = d @ r \<and> d \<noteq> [] \<and> list_all is_digit d \<and> (r = [] \<or> \<not> is_digit (hd r))"
proof
  assume "digits1 s = Some (d, r)"
  then have d: "d = takeWhile is_digit s" and r: "r = dropWhile is_digit s" and ne: "d \<noteq> []"
    by (auto simp: digits1_def Let_def split: if_splits)
  have "list_all is_digit d" unfolding d by (auto simp: list_all_iff dest: set_takeWhileD)
  moreover have "r = [] \<or> \<not> is_digit (hd r)"
    unfolding r using hd_dropWhile[of is_digit s] by auto
  ultimately show "s = d @ r \<and> d \<noteq> [] \<and> list_all is_digit d \<and> (r = [] \<or> \<not> is_digit (hd r))"
    using ne by (simp add: d r)
next
  assume a: "s = d @ r \<and> d \<noteq> [] \<and> list_all is_digit d \<and> (r = [] \<or> \<not> is_digit (hd r))"
  then have "takeWhile is_digit s = d \<and> dropWhile is_digit s = r"
    using takeWhile_all[of is_digit d r] by simp
  with a show "digits1 s = Some (d, r)" by (simp add: digits1_def)
qed












text \<open>
  The column where double arithmetic is exact. Line 169 computes
  \<^verbatim>\<open>Math.floor((obj.x * keyCount) / 512)\<close> in IEEE doubles. For an integer key count
  \<open>k\<close> below \<open>2^53\<close> and \<open>x * k\<close> below \<open>2^53\<close> no operation rounds, and the column is
  the integer floor division \<open>x * k div 512\<close>: 0 for \<open>x = 0\<close>, 3 for \<open>x = 511\<close> and
  \<open>k = 4\<close>. Outside that range the code rounds (a key count such as 9.28 or 5.6 is
  no double) and this embedding, which computes exactly, does not follow it.
\<close>

theorem column_integer_key_count:
  "parseHitObjects s (of_int k) = Inr objs \<Longrightarrow> obj \<in> set objs \<Longrightarrow>
   0 < k \<Longrightarrow> k < 2 ^ 53 \<Longrightarrow> x obj * k < 2 ^ 53 \<Longrightarrow>
     column obj = Some (x obj * k div 512)"
proof -
  assume p: "parseHitObjects s (of_int k) = Inr objs" and m: "obj \<in> set objs"
  from parseHitObjects_set[OF p m] obtain line where h: "hitObject (of_int k) line = Some obj" ..
  have "rat_of_int (x obj) * of_int k / 512 = of_int (x obj * k) / of_int 512" by simp
  then have "\<lfloor>rat_of_int (x obj) * of_int k / 512\<rfloor> = x obj * k div 512"
    by (simp only: floor_divide_of_int_eq)
  with hitObject_Some(1)[OF h] show ?thesis by simp
qed

theorem column_integer_key_count_witness:
  "parseHitObjects ''[HitObjects]\<newline>511,192,2000,1,0\<newline>0,192,1000,1,0'' (of_int 4) =
     Inr [\<lparr>x = 0, y = 192, time = 1000, type = 1, hitSound = 0,
           objectParams = None, hitSample = None,
           column = Some 0, isLongNote = Some False, endTime = Some 1000\<rparr>,
          \<lparr>x = 511, y = 192, time = 2000, type = 1, hitSound = 0,
           objectParams = None, hitSample = None,
           column = Some 3, isLongNote = Some False, endTime = Some 2000\<rparr>] \<and>
   (0::int) < 4 \<and> (4::int) < 2 ^ 53 \<and> (511::int) * 4 < 2 ^ 53 \<and>
   Some (3::int) = Some (511 * 4 div 512)"
proof -
  let ?a = "\<lparr>x = 0, y = 192, time = 1000, type = 1, hitSound = 0,
           objectParams = None, hitSample = None,
           column = Some 0, isLongNote = Some False, endTime = Some 1000\<rparr>"
  let ?b = "\<lparr>x = 511, y = 192, time = 2000, type = 1, hitSound = 0,
           objectParams = None, hitSample = None,
           column = Some 3, isLongNote = Some False, endTime = Some 2000\<rparr>"
  have h4: "parseHitObjects ''[HitObjects]\<newline>511,192,2000,1,0\<newline>0,192,1000,1,0'' 4 = Inr [?a, ?b]"
    by code_simp
  then have h: "parseHitObjects ''[HitObjects]\<newline>511,192,2000,1,0\<newline>0,192,1000,1,0'' (of_int 4)
      = Inr [?a, ?b]"
    by simp
  have m: "?b \<in> set [?a, ?b]" by simp
  have b: "(0::int) < 4" "(4::int) < 2 ^ 53" "x ?b * 4 < 2 ^ 53" by simp_all
  from column_integer_key_count[OF h m b] have "column ?b = Some (x ?b * 4 div 512)" .
  with h show ?thesis by simp
qed

subsection \<open>The parsed map\<close>

lemma hitObject_endTime_or_time:
  assumes "hitObject kc line = Some obj"
  shows "endTime obj = Some (endTime_or_time obj)"
  using hitObject_Some(3)[OF assms]
  by (auto simp: endTime_or_time_def split: option.splits if_splits)

lemma parseOsuFile_Inr:
  assumes "parseOsuFile s = Inr pm"
  shows "parseHitObjects s (or4 (circleSize (parseMetadata s))) = Inr (hitObjects pm)"
    and "metadata pm = parseMetadata s"
    and "timingPoints pm = parseTimingPoints s"
    and "keyCount pm = or4 (circleSize (parseMetadata s))"
    and "noteCount pm = length (hitObjects pm)"
    and "longNoteCount pm = length (filter (\<lambda>obj. isLongNote obj = Some True) (hitObjects pm))"
    and "duration pm = (case map endTime_or_time (hitObjects pm) of [] \<Rightarrow> 0 | v # vs \<Rightarrow> fold max vs v)"
  using assms
  by (auto simp: parseOsuFile_def Let_def split: sum.splits)

text \<open>
  Claim C6. For every text, whatever the order of the lines in its sections, the timing
  points and the hit objects the parser returns are non-decreasing in \<open>time\<close>.
\<close>

theorem sequences_sorted:
  "sorted (map TimingPoint.time (parseTimingPoints s)) \<and>
   (\<forall>objs. parseHitObjects s kc = Inr objs \<longrightarrow> sorted (map time objs)) \<and>
   (\<forall>pm. parseOsuFile s = Inr pm \<longrightarrow>
      sorted (map TimingPoint.time (timingPoints pm)) \<and> sorted (map time (hitObjects pm)))"
proof (intro conjI allI impI)
  show "sorted (map TimingPoint.time (parseTimingPoints s))"
    by (rule parseTimingPoints_sorted)
next
  fix objs assume "parseHitObjects s kc = Inr objs"
  then show "sorted (map time objs)" by (rule parseHitObjects_sorted)
next
  fix pm assume p: "parseOsuFile s = Inr pm"
  show "sorted (map TimingPoint.time (timingPoints pm))"
    by (simp add: parseOsuFile_Inr(3)[OF p] parseTimingPoints_sorted)
  show "sorted (map time (hitObjects pm))"
    by (rule parseHitObjects_sorted[OF parseOsuFile_Inr(1)[OF p]])
qed

theorem sequences_sorted_witness:
  "parseOsuFile
     (''[TimingPoints]\<newline>2000,500,4,1,0,100,1,0\<newline>1000,-50,4,1,0,100,0,0\<newline>[HitObjects]\<newline>64,0,3000,1,0\<newline>192,0,1000,1,0'') =
   Inr \<lparr>hitObjects =
          [\<lparr>x = 192, y = 0, time = 1000, type = 1, hitSound = 0, objectParams = None,
            hitSample = None, column = Some 1, isLongNote = Some False, endTime = Some 1000\<rparr>,
           \<lparr>x = 64, y = 0, time = 3000, type = 1, hitSound = 0, objectParams = None,
            hitSample = None, column = Some 0, isLongNote = Some False, endTime = Some 3000\<rparr>],
        timingPoints =
          [\<lparr>TimingPoint.time = 1000, beatLength = - 50, meter = 4, sampleSet = 1,
            sampleIndex = 0, volume = 100, uninherited = False, effects = 0\<rparr>,
           \<lparr>TimingPoint.time = 2000, beatLength = 500, meter = 4, sampleSet = 1,
            sampleIndex = 0, volume = 100, uninherited = True, effects = 0\<rparr>],
        metadata = no_metadata,
        noteCount = 2, longNoteCount = 0, duration = 3000, keyCount = 4\<rparr> \<and>
   sorted [1000, 2000 :: rat] \<and> sorted [1000, 3000 :: int]"
proof -
  let ?s = "''[TimingPoints]\<newline>2000,500,4,1,0,100,1,0\<newline>1000,-50,4,1,0,100,0,0\<newline>[HitObjects]\<newline>64,0,3000,1,0\<newline>192,0,1000,1,0''"
  let ?pm = "\<lparr>hitObjects =
          [\<lparr>x = 192, y = 0, time = 1000, type = 1, hitSound = 0, objectParams = None,
            hitSample = None, column = Some 1, isLongNote = Some False, endTime = Some 1000\<rparr>,
           \<lparr>x = 64, y = 0, time = 3000, type = 1, hitSound = 0, objectParams = None,
            hitSample = None, column = Some 0, isLongNote = Some False, endTime = Some 3000\<rparr>],
        timingPoints =
          [\<lparr>TimingPoint.time = 1000, beatLength = - 50, meter = 4, sampleSet = 1,
            sampleIndex = 0, volume = 100, uninherited = False, effects = 0\<rparr>,
           \<lparr>TimingPoint.time = 2000, beatLength = 500, meter = 4, sampleSet = 1,
            sampleIndex = 0, volume = 100, uninherited = True, effects = 0\<rparr>],
        metadata = no_metadata,
        noteCount = 2, longNoteCount = 0, duration = 3000, keyCount = 4\<rparr>"
  have md: "parseMetadata ?s = no_metadata" by code_simp
  have ts: "split_second ''[TimingPoints]'' ?s \<noteq> Some []"
    and tl: "map_option section_lines (split_second ''[TimingPoints]'' ?s) =
       Some [''2000,500,4,1,0,100,1,0'', ''1000,-50,4,1,0,100,0,0'', ''64,0,3000,1,0'',
             ''192,0,1000,1,0'']"
    by code_simp+
  have r1: "timingRegex ''2000,500,4,1,0,100,1,0'' =
      Some (''2000'', ''500'', ''4'', ''1'', ''0'', ''100'', ''1'', ''0'')"
    and r2: "timingRegex ''1000,-50,4,1,0,100,0,0'' =
      Some (''1000'', ''-50'', ''4'', ''1'', ''0'', ''100'', ''0'', ''0'')"
    and r3: "timingRegex ''64,0,3000,1,0'' = None"
    and r4: "timingRegex ''192,0,1000,1,0'' = None"
    by code_simp+
  have tp: "parseTimingPoints ?s = timingPoints ?pm"
    using ts tl
    by (auto simp: parseTimingPoints_def timingPoint_def r1 r2 r3 r4 decimal_def parseFloat_def
        is_digit_def digits_val_def digit_val_def parseInt_def Let_def split: option.splits)
  have ho: "parseHitObjects ?s 4 = Inr (hitObjects ?pm)" by code_simp
  have h: "parseOsuFile ?s = Inr ?pm"
    using tp by (simp add: parseOsuFile_def Let_def md ho or4_def no_metadata_def endTime_or_time_def)
  from sequences_sorted[of ?s 4] h
  have "sorted (map TimingPoint.time (timingPoints ?pm)) \<and> sorted (map time (hitObjects ?pm))"
    by blast
  with h show ?thesis by simp
qed

text \<open>
  Claim C5. In every parsed map, \<open>noteCount\<close> is the number of hit objects,
  \<open>longNoteCount\<close> the number of those with \<open>isLongNote\<close> true, \<open>duration\<close> is 0
  without hit objects and else the greatest \<open>endTime\<close> (which every parsed object has),
  and \<open>keyCount\<close> is \<open>circleSize\<close> when the metadata has one that is not falsy (not
  \<open>NaN\<close>, not 0), else 4: the key count the hit objects were parsed with, so the one
  their columns come from.
\<close>

theorem parseOsuFile_summary:
  "parseOsuFile s = Inr pm \<Longrightarrow>
     noteCount pm = length (hitObjects pm) \<and>
     longNoteCount pm = length (filter (\<lambda>obj. isLongNote obj = Some True) (hitObjects pm)) \<and>
     (hitObjects pm = [] \<longrightarrow> duration pm = 0) \<and>
     (hitObjects pm \<noteq> [] \<longrightarrow>
        (\<forall>obj \<in> set (hitObjects pm). endTime obj \<noteq> None) \<and>
        duration pm = Max ((\<lambda>obj. the (endTime obj)) ` set (hitObjects pm))) \<and>
     (\<forall>v. circleSize (metadata pm) = Some (Num v) \<and> v \<noteq> 0 \<longrightarrow> keyCount pm = v) \<and>
     (circleSize (metadata pm) = None \<or> circleSize (metadata pm) = Some NaN \<or>
      circleSize (metadata pm) = Some (Num 0) \<longrightarrow> keyCount pm = 4) \<and>
     parseHitObjects s (keyCount pm) = Inr (hitObjects pm) \<and>
     (\<forall>obj \<in> set (hitObjects pm). column obj = Some \<lfloor>of_int (x obj) * keyCount pm / 512\<rfloor>)"
proof -
  assume p: "parseOsuFile s = Inr pm"
  note f = parseOsuFile_Inr[OF p]
  have ph: "parseHitObjects s (keyCount pm) = Inr (hitObjects pm)"
    using f(1) f(4) by simp
  have et: "endTime obj = Some (endTime_or_time obj)" if "obj \<in> set (hitObjects pm)" for obj
  proof -
    from parseHitObjects_set[OF ph that] obtain line where "hitObject (keyCount pm) line = Some obj" ..
    then show ?thesis by (rule hitObject_endTime_or_time)
  qed
  have col: "column obj = Some \<lfloor>of_int (x obj) * keyCount pm / 512\<rfloor>"
    if "obj \<in> set (hitObjects pm)" for obj
  proof -
    from parseHitObjects_set[OF ph that] obtain line where "hitObject (keyCount pm) line = Some obj" ..
    then show ?thesis by (rule hitObject_Some(1))
  qed
  have d0: "duration pm = 0" if "hitObjects pm = []"
    using f(7) that by simp
  have d1: "duration pm = Max ((\<lambda>obj. the (endTime obj)) ` set (hitObjects pm))"
    if ne: "hitObjects pm \<noteq> []"
  proof -
    have m: "map endTime_or_time (hitObjects pm) = map (\<lambda>obj. the (endTime obj)) (hitObjects pm)"
      using et by simp
    from ne obtain obj objs where c: "hitObjects pm = obj # objs" by (cases "hitObjects pm") auto
    have "duration pm = fold max (map (\<lambda>obj. the (endTime obj)) objs) (the (endTime obj))"
      using f(7) unfolding m by (simp add: c)
    also have "\<dots> = Max (set (the (endTime obj) # map (\<lambda>obj. the (endTime obj)) objs))"
      by (simp only: Max.set_eq_fold)
    also have "\<dots> = Max ((\<lambda>obj. the (endTime obj)) ` set (hitObjects pm))"
      by (simp add: c)
    finally show ?thesis .
  qed
  have k1: "keyCount pm = v" if "circleSize (metadata pm) = Some (Num v)" "v \<noteq> 0" for v
    using f(2) f(4) that by (simp add: or4_def)
  have k2: "keyCount pm = 4"
    if "circleSize (metadata pm) = None \<or> circleSize (metadata pm) = Some NaN \<or>
        circleSize (metadata pm) = Some (Num 0)"
    using f(2) f(4) that by (auto simp: or4_def)
  show ?thesis
    using f(5) f(6) d0 d1 et k1 k2 ph col by (intro conjI allI impI ballI) auto
qed

theorem parseOsuFile_summary_witness:
  "parseOsuFile ''[Difficulty]\<newline>CircleSize:7\<newline>[HitObjects]\<newline>0,0,1000,128,0,3000:0:0:0:x\<newline>511,0,2000,1,0'' =
   Inr \<lparr>hitObjects =
          [\<lparr>x = 0, y = 0, time = 1000, type = 128, hitSound = 0,
            objectParams = Some ''3000:0:0:0:x'', hitSample = None, column = Some 0,
            isLongNote = Some True, endTime = Some 3000\<rparr>,
           \<lparr>x = 511, y = 0, time = 2000, type = 1, hitSound = 0, objectParams = None,
            hitSample = None, column = Some 6, isLongNote = Some False, endTime = Some 2000\<rparr>],
        timingPoints = [],
        metadata = no_metadata\<lparr>circleSize := Some (Num 7)\<rparr>,
        noteCount = 2, longNoteCount = 1, duration = 3000, keyCount = 7\<rparr> \<and>
   Max {3000, 2000 :: int} = 3000"
proof -
  let ?s = "''[Difficulty]\<newline>CircleSize:7\<newline>[HitObjects]\<newline>0,0,1000,128,0,3000:0:0:0:x\<newline>511,0,2000,1,0''"
  let ?pm = "\<lparr>hitObjects =
          [\<lparr>x = 0, y = 0, time = 1000, type = 128, hitSound = 0,
            objectParams = Some ''3000:0:0:0:x'', hitSample = None, column = Some 0,
            isLongNote = Some True, endTime = Some 3000\<rparr>,
           \<lparr>x = 511, y = 0, time = 2000, type = 1, hitSound = 0, objectParams = None,
            hitSample = None, column = Some 6, isLongNote = Some False, endTime = Some 2000\<rparr>],
        timingPoints = [],
        metadata = no_metadata\<lparr>circleSize := Some (Num 7)\<rparr>,
        noteCount = 2, longNoteCount = 1, duration = 3000, keyCount = 7\<rparr>"
  have g: "section_match ''[General]'' ?s = None" "section_match ''[Metadata]'' ?s = None"
    by code_simp+
  have d: "map_option (key_match ''CircleSize:'' ws_number) (section_match ''[Difficulty]'' ?s)
             = Some (Some ''7'')"
    by code_simp
  have pf: "parseFloat ''7'' = Num 7"
    by (simp add: parseFloat_def is_digit_def digits_val_def digit_val_def Let_def)
  have md: "parseMetadata ?s = no_metadata\<lparr>circleSize := Some (Num 7)\<rparr>"
    using g d pf
    by (auto simp: parseMetadata_def parseGeneral_def parseMetadataSection_def
        parseDifficulty_def split: option.splits)
  have tp: "parseTimingPoints ?s = []" by code_simp
  have ho: "parseHitObjects ?s 7 = Inr (hitObjects ?pm)" by code_simp
  have h: "parseOsuFile ?s = Inr ?pm"
    by (simp add: parseOsuFile_def Let_def md tp ho or4_def no_metadata_def endTime_or_time_def)
  from parseOsuFile_summary[OF h]
  have "duration ?pm = Max ((\<lambda>obj. the (endTime obj)) ` set (hitObjects ?pm))"
    by simp
  with h show ?thesis by simp
qed

text \<open>
  Claim C1, at the input where the code leaves it. The text below holds the header
  \<^verbatim>\<open>[HitObjects]\<close> as its last characters: \<^verbatim>\<open>split\<close> yields the empty string after
  it, \<^verbatim>\<open>!hitObjectSection\<close> is true for the empty string, and the parse ends in the
  error for a section that was not found. With one more line break after the header
  the same text parses, to a map without hit objects.
\<close>

theorem header_at_end_of_text:
  "after_first_ci ''[HitObjects]'' ''[Metadata]\<newline>Title:a\<newline>[HitObjects]'' = Some [] \<and>
   split_second ''[HitObjects]'' ''[Metadata]\<newline>Title:a\<newline>[HitObjects]'' = Some [] \<and>
   parseOsuFile ''[Metadata]\<newline>Title:a\<newline>[HitObjects]'' =
     Inl (Error ''Section [HitObjects] introuvable dans le fichier .osu'') \<and>
   parseOsuFile ''[Metadata]\<newline>Title:a\<newline>[HitObjects]\<newline>'' =
     Inr \<lparr>hitObjects = [], timingPoints = [],
          metadata = no_metadata\<lparr>title := Some ''a''\<rparr>,
          noteCount = 0, longNoteCount = 0, duration = 0, keyCount = 4\<rparr>"
  by code_simp

subsection \<open>Columns\<close>

lemma organize_loop_char:
  "length cols = k \<Longrightarrow>
   organize_loop objs (of_nat k) cols =
     Inr (map (\<lambda>i. cols ! i @ filter (\<lambda>obj. col_of obj = int i) objs) [0..<k])"
proof (induction objs arbitrary: cols)
  case Nil
  then show ?case using map_nth[of cols] by simp
next
  case (Cons obj objs)
  show ?case
  proof (cases "col_of obj \<ge> 0 \<and> col_of obj < int k")
    case True
    then have lt: "nat (col_of obj) < length cols" using Cons.prems by (simp add: nat_less_iff)
    have len: "length (cols[nat (col_of obj) := cols ! nat (col_of obj) @ [obj]]) = k"
      using Cons.prems by simp
    have "organize_loop (obj # objs) (of_nat k) cols =
          organize_loop objs (of_nat k) (cols[nat (col_of obj) := cols ! nat (col_of obj) @ [obj]])"
      using True lt by (simp add: Let_def)
    also have "\<dots> = Inr (map (\<lambda>i. (cols[nat (col_of obj) := cols ! nat (col_of obj) @ [obj]]) ! i
                              @ filter (\<lambda>obj. col_of obj = int i) objs) [0..<k])"
      by (rule Cons.IH[OF len])
    also have "\<dots> = Inr (map (\<lambda>i. cols ! i @ filter (\<lambda>o'. col_of o' = int i) (obj # objs)) [0..<k])"
      using True Cons.prems by (auto simp: nth_list_update)
    finally show ?thesis .
  next
    case False
    then have "organize_loop (obj # objs) (of_nat k) cols = organize_loop objs (of_nat k) cols"
      by (auto simp: Let_def)
    also have "\<dots> = Inr (map (\<lambda>i. cols ! i @ filter (\<lambda>obj. col_of obj = int i) objs) [0..<k])"
      by (rule Cons.IH[OF Cons.prems])
    also have "\<dots> = Inr (map (\<lambda>i. cols ! i @ filter (\<lambda>o'. col_of o' = int i) (obj # objs)) [0..<k])"
      using False by auto
    finally show ?thesis .
  qed
qed

lemma organize_char:
  "organizeNotesByColumn objs (of_nat k) =
     Inr (map (\<lambda>i. filter (\<lambda>obj. col_of obj = int i) objs) [0..<k])"
  by (simp add: organizeNotesByColumn_def organize_loop_char)

text \<open>
  Claim C7. For every sequence of hit objects and every key count \<open>k\<close> (a natural
  number), \<open>organizeNotesByColumn\<close> returns \<open>k\<close> sequences; sequence \<open>i\<close> is the
  input filtered to the objects of column \<open>i\<close>, in the order of the input, so an
  object whose column is negative or at least \<open>k\<close> is in none of them. The column
  is read as the code reads it, \<^verbatim>\<open>obj.column ?? 0\<close>: the field when the object has one.
\<close>

theorem organizeNotesByColumn_buckets:
  "\<exists>columns. organizeNotesByColumn objs (of_nat k) = Inr columns \<and> length columns = k \<and>
     (\<forall>i<k. columns ! i = filter (\<lambda>obj. col_of obj = int i) objs) \<and>
     (\<forall>obj. col_of obj < 0 \<or> int k \<le> col_of obj \<longrightarrow> (\<forall>c \<in> set columns. obj \<notin> set c)) \<and>
     (\<forall>obj c. column obj = Some c \<longrightarrow> col_of obj = c)"
proof -
  let ?cols = "map (\<lambda>i. filter (\<lambda>obj. col_of obj = int i) objs) [0..<k]"
  have "organizeNotesByColumn objs (of_nat k) = Inr ?cols" by (rule organize_char)
  moreover have "length ?cols = k" by simp
  moreover have "\<forall>i<k. ?cols ! i = filter (\<lambda>obj. col_of obj = int i) objs" by simp
  moreover have "\<forall>obj. col_of obj < 0 \<or> int k \<le> col_of obj \<longrightarrow> (\<forall>c \<in> set ?cols. obj \<notin> set c)"
    by auto
  moreover have "\<forall>obj c. column obj = Some c \<longrightarrow> col_of obj = c"
    by (simp add: col_of_def)
  ultimately show ?thesis by blast
qed

theorem organizeNotesByColumn_buckets_witness:
  "map_sum id (map (map column))
     (organizeNotesByColumn
        (map (\<lambda>c. \<lparr>x = 0, y = 0, time = 0, type = 1, hitSound = 0, objectParams = None,
                    hitSample = None, column = Some c, isLongNote = Some False,
                    endTime = Some 0\<rparr>) [0, 3, 5, - 1, 2])
        (of_nat 4)) =
   Inr [[Some 0], [], [Some 2], [Some 3]]"
proof -
  let ?objs = "map (\<lambda>c. \<lparr>x = 0, y = 0, time = 0, type = 1, hitSound = 0, objectParams = None,
                    hitSample = None, column = Some c, isLongNote = Some False,
                    endTime = Some 0\<rparr>) [0, 3, 5, - 1, 2]"
  from organizeNotesByColumn_buckets[of ?objs 4]
  obtain columns where c: "organizeNotesByColumn ?objs (of_nat 4) = Inr columns"
    and l: "length columns = 4"
    and f: "\<forall>i<4. columns ! i = filter (\<lambda>obj. col_of obj = int i) ?objs"
    by blast
  have "columns = map (\<lambda>i. columns ! i) [0..<4]"
    using l map_nth[of columns] by simp
  also have "\<dots> = map (\<lambda>i. filter (\<lambda>obj. col_of obj = int i) ?objs) [0..<4]"
    using f by simp
  finally have "map (map column) columns = [[Some 0], [], [Some 2], [Some 3]]"
    by (simp add: col_of_def upt_rec numeral_nat)
  with c show ?thesis by simp
qed

text \<open>
  Claim C10. An object without the field \<open>column\<close> is put into sequence 0, for every
  key count \<open>k \<ge> 1\<close>.
\<close>

theorem absent_column_in_first_sequence:
  "column obj = None \<Longrightarrow> obj \<in> set objs \<Longrightarrow> 1 \<le> k \<Longrightarrow>
     \<exists>columns. organizeNotesByColumn objs (of_nat k) = Inr columns \<and> obj \<in> set (columns ! 0)"
proof -
  assume a: "column obj = None" "obj \<in> set objs" "1 \<le> k"
  let ?cols = "map (\<lambda>i. filter (\<lambda>obj. col_of obj = int i) objs) [0..<k]"
  have "organizeNotesByColumn objs (of_nat k) = Inr ?cols" by (rule organize_char)
  moreover have "?cols ! 0 = filter (\<lambda>obj. col_of obj = 0) objs"
    using a(3) by (simp add: nth_map_upt)
  moreover have "col_of obj = 0" using a(1) by (simp add: col_of_def)
  ultimately show ?thesis using a(2) by auto
qed

theorem absent_column_in_first_sequence_witness:
  "organizeNotesByColumn
     [\<lparr>x = 300, y = 0, time = 0, type = 1, hitSound = 0, objectParams = None,
       hitSample = None, column = None, isLongNote = None, endTime = None\<rparr>] (of_nat 2) =
   Inr [[\<lparr>x = 300, y = 0, time = 0, type = 1, hitSound = 0, objectParams = None,
          hitSample = None, column = None, isLongNote = None, endTime = None\<rparr>], []] \<and>
   \<lparr>x = 300, y = 0, time = 0, type = 1, hitSound = 0, objectParams = None,
     hitSample = None, column = None, isLongNote = None, endTime = None\<rparr>
     \<in> set ([[\<lparr>x = 300, y = 0, time = 0, type = 1, hitSound = 0, objectParams = None,
                 hitSample = None, column = None, isLongNote = None, endTime = None\<rparr>], []] ! 0)"
proof -
  let ?obj = "\<lparr>x = 300, y = 0, time = 0, type = 1, hitSound = 0, objectParams = None,
       hitSample = None, column = None, isLongNote = None, endTime = None\<rparr>"
  have a: "column ?obj = None" "?obj \<in> set [?obj]" "1 \<le> (2::nat)" by simp_all
  from absent_column_in_first_sequence[OF a]
  obtain columns where c: "organizeNotesByColumn [?obj] (of_nat 2) = Inr columns"
    and m: "?obj \<in> set (columns ! 0)"
    by blast
  have e: "organizeNotesByColumn [?obj] (of_nat 2) = Inr [[?obj], []]"
    by (simp add: organizeNotesByColumn_def col_of_def numeral_2_eq_2)
  with c have "columns = [[?obj], []]" by simp
  with m e show ?thesis by simp
qed

subsection \<open>Metadata\<close>

lemma ci_eq_length: "ci_eq a b \<Longrightarrow> length a = length b"
  unfolding ci_eq_def by (rule map_eq_imp_length_eq)

lemma ci_prefix_iff: "ci_prefix p s \<longleftrightarrow> (\<exists>h r. s = h @ r \<and> ci_eq h p)"
proof (induction p s rule: ci_prefix.induct)
  case (1 s)
  show ?case by (auto simp: ci_eq_def)
next
  case (2 p ps)
  show ?case by (auto simp: ci_eq_def)
next
  case (3 p ps c cs)
  show ?case
  proof
    assume "ci_prefix (p # ps) (c # cs)"
    then have l: "lower_char p = lower_char c" and "ci_prefix ps cs" by simp_all
    with 3 obtain h r where "cs = h @ r" "ci_eq h ps" by blast
    with l have "c # cs = (c # h) @ r \<and> ci_eq (c # h) (p # ps)" by (simp add: ci_eq_def)
    then show "\<exists>h r. c # cs = h @ r \<and> ci_eq h (p # ps)" by blast
  next
    assume "\<exists>h r. c # cs = h @ r \<and> ci_eq h (p # ps)"
    then obtain h r where e: "c # cs = h @ r" and q: "ci_eq h (p # ps)" by blast
    from q obtain a h' where h: "h = a # h'" by (cases h) (auto simp: ci_eq_def)
    with e q have "a = c" "cs = h' @ r" "lower_char c = lower_char p" "ci_eq h' ps"
      by (auto simp: ci_eq_def)
    with 3 show "ci_prefix (p # ps) (c # cs)" by auto
  qed
qed

lemma ci_prefix_take: "ci_prefix p s \<Longrightarrow> ci_eq (take (length p) s) p"
proof -
  assume "ci_prefix p s"
  then obtain h r where s: "s = h @ r" and q: "ci_eq h p" by (auto simp: ci_prefix_iff)
  from q have "length h = length p" by (rule ci_eq_length)
  then have "take (length p) s = h" by (simp add: s)
  with q show ?thesis by simp
qed

lemma rev_dropWhile_split:
  "xs = rev (dropWhile P (rev xs)) @ rev (takeWhile P (rev xs))"
proof -
  have "rev (rev xs) = rev (takeWhile P (rev xs) @ dropWhile P (rev xs))"
    by (simp only: takeWhile_dropWhile_id)
  then show ?thesis by (simp only: rev_rev_ident rev_append)
qed

lemma after_first_ci_Some:
  "after_first_ci p s = Some r \<Longrightarrow>
     \<exists>pre h. s = pre @ h @ r \<and> ci_eq h p \<and>
       (\<forall>pre' h' post'. s = pre' @ h' @ post' \<and> ci_eq h' p \<longrightarrow> length pre \<le> length pre')"
proof (induction s)
  case Nil
  then show ?case by (auto simp: ci_eq_def split: if_splits)
next
  case (Cons c cs)
  show ?case
  proof (cases "ci_prefix p (c # cs)")
    case True
    with Cons.prems have r: "r = drop (length p) (c # cs)" by simp
    have "c # cs = [] @ take (length p) (c # cs) @ r" by (simp add: r)
    moreover have "ci_eq (take (length p) (c # cs)) p" by (rule ci_prefix_take[OF True])
    ultimately show ?thesis by (metis le0 list.size(3))
  next
    case False
    with Cons.prems have "after_first_ci p cs = Some r" by simp
    from Cons.IH[OF this] obtain pre h where cs: "cs = pre @ h @ r" and q: "ci_eq h p"
      and m: "\<forall>pre' h' post'. cs = pre' @ h' @ post' \<and> ci_eq h' p \<longrightarrow> length pre \<le> length pre'"
      by blast
    have "length (c # pre) \<le> length pre'" if e: "c # cs = pre' @ h' @ post'" and q': "ci_eq h' p"
      for pre' h' post'
    proof (cases pre')
      case Nil
      with e q' have "ci_prefix p (c # cs)" by (auto simp: ci_prefix_iff)
      with False show ?thesis by simp
    next
      case (Cons a pre'')
      with e have "cs = pre'' @ h' @ post'" by simp
      with m q' have "length pre \<le> length pre''" by blast
      with Cons show ?thesis by simp
    qed
    moreover have "c # cs = (c # pre) @ h @ r" using cs by simp
    ultimately show ?thesis using q by blast
  qed
qed

lemma after_first_ci_None:
  "after_first_ci p s = None \<longleftrightarrow> \<not> (\<exists>pre h post. s = pre @ h @ post \<and> ci_eq h p)"
proof (induction s)
  case Nil
  show ?case by (auto simp: ci_eq_def)
next
  case (Cons c cs)
  show ?case
  proof (cases "ci_prefix p (c # cs)")
    case True
    then obtain h r where "c # cs = [] @ h @ r" "ci_eq h p" by (auto simp: ci_prefix_iff)
    then have "\<exists>pre h post. c # cs = pre @ h @ post \<and> ci_eq h p" by blast
    with True show ?thesis by simp
  next
    case False
    have "(\<exists>pre h post. c # cs = pre @ h @ post \<and> ci_eq h p) \<longleftrightarrow>
          (\<exists>pre h post. cs = pre @ h @ post \<and> ci_eq h p)"
    proof
      assume "\<exists>pre h post. c # cs = pre @ h @ post \<and> ci_eq h p"
      then obtain pre h post where e: "c # cs = pre @ h @ post" and q: "ci_eq h p" by blast
      show "\<exists>pre h post. cs = pre @ h @ post \<and> ci_eq h p"
      proof (cases pre)
        case Nil
        with e q have "ci_prefix p (c # cs)" by (auto simp: ci_prefix_iff)
        with False show ?thesis by simp
      next
        case (Cons a pre')
        with e have "cs = pre' @ h @ post" by simp
        with q show ?thesis by blast
      qed
    next
      assume "\<exists>pre h post. cs = pre @ h @ post \<and> ci_eq h p"
      then obtain pre h post where "cs = pre @ h @ post" "ci_eq h p" by blast
      then have "c # cs = (c # pre) @ h @ post \<and> ci_eq h p" by simp
      then show "\<exists>pre h post. c # cs = pre @ h @ post \<and> ci_eq h p" by blast
    qed
    with False Cons.IH show ?thesis by simp
  qed
qed

lemma section_match_None:
  "section_match H s = None \<longleftrightarrow> \<not> (\<exists>pre h post. s = pre @ h @ post \<and> ci_eq h H)"
  using after_first_ci_None[of H s] by (auto simp: section_match_def split: option.splits)

lemma section_match_Some:
  assumes "section_match H s = Some b"
  shows "\<exists>pre h post. s = pre @ h @ b @ post \<and> ci_eq h H \<and> CHR ''['' \<notin> set b \<and>
           (post = [] \<or> hd post = CHR ''['') \<and>
           (\<forall>pre' h' post'. s = pre' @ h' @ post' \<and> ci_eq h' H \<longrightarrow> length pre \<le> length pre')"
proof -
  from assms obtain r where a: "after_first_ci H s = Some r"
    and b: "b = takeWhile (\<lambda>c. c \<noteq> CHR ''['') r"
    by (auto simp: section_match_def split: option.splits)
  from after_first_ci_Some[OF a] obtain pre h where s: "s = pre @ h @ r" and q: "ci_eq h H"
    and m: "\<forall>pre' h' post'. s = pre' @ h' @ post' \<and> ci_eq h' H \<longrightarrow> length pre \<le> length pre'"
    by blast
  let ?post = "dropWhile (\<lambda>c. c \<noteq> CHR ''['') r"
  have "s = pre @ h @ b @ ?post" using s b by simp
  moreover have "CHR ''['' \<notin> set b" unfolding b by (auto dest: set_takeWhileD)
  moreover have "?post = [] \<or> hd ?post = CHR ''[''"
    using hd_dropWhile[of "\<lambda>c. c \<noteq> CHR ''[''" r] by auto
  ultimately show ?thesis using q m by blast
qed

lemma key_match_Some:
  "key_match K rest b = Some v \<Longrightarrow> \<exists>pre k post. b = pre @ k @ post \<and> ci_eq k K \<and> rest post = Some v"
proof (induction b)
  case Nil
  then show ?case by simp
next
  case (Cons c cs)
  show ?case
  proof (cases "ci_prefix K (c # cs) \<and> rest (drop (length K) (c # cs)) = Some v")
    case True
    have "c # cs = [] @ take (length K) (c # cs) @ drop (length K) (c # cs)" by simp
    moreover have "ci_eq (take (length K) (c # cs)) K" using True by (simp add: ci_prefix_take)
    ultimately show ?thesis using True by blast
  next
    case False
    with Cons.prems have "key_match K rest cs = Some v"
      by (auto split: option.splits if_splits)
    from Cons.IH[OF this] obtain pre k post where "cs = pre @ k @ post" "ci_eq k K" "rest post = Some v"
      by blast
    then have "c # cs = (c # pre) @ k @ post \<and> ci_eq k K \<and> rest post = Some v" by simp
    then show ?thesis by blast
  qed
qed

lemma key_match_absent:
  "\<not> (\<exists>pre k post. b = pre @ k @ post \<and> ci_eq k K) \<Longrightarrow> key_match K rest b = None"
proof (induction b)
  case Nil
  show ?case by simp
next
  case (Cons c cs)
  have "\<not> ci_prefix K (c # cs)"
  proof
    assume "ci_prefix K (c # cs)"
    then obtain h r where "c # cs = [] @ h @ r" "ci_eq h K" by (auto simp: ci_prefix_iff)
    with Cons.prems show False by blast
  qed
  moreover have "\<not> (\<exists>pre k post. cs = pre @ k @ post \<and> ci_eq k K)"
  proof
    assume "\<exists>pre k post. cs = pre @ k @ post \<and> ci_eq k K"
    then obtain pre k post where "cs = pre @ k @ post" "ci_eq k K" by blast
    then have "c # cs = (c # pre) @ k @ post \<and> ci_eq k K" by simp
    with Cons.prems show False by blast
  qed
  ultimately show ?case using Cons.IH by simp
qed

lemma dots_Some:
  "dots t = Some v \<Longrightarrow> \<exists>post. t = v @ post \<and> v \<noteq> [] \<and> \<not> list_ex is_lt v \<and> (post = [] \<or> is_lt (hd post))"
proof -
  assume a: "dots t = Some v"
  then have v: "v = takeWhile (\<lambda>c. \<not> is_lt c) t" and ne: "v \<noteq> []"
    by (auto simp: dots_def Let_def split: if_splits)
  let ?post = "dropWhile (\<lambda>c. \<not> is_lt c) t"
  have "t = v @ ?post" by (simp add: v)
  moreover have "\<not> list_ex is_lt v" unfolding v list_ex_iff by (auto dest: set_takeWhileD)
  moreover have "?post = [] \<or> is_lt (hd ?post)"
    using hd_dropWhile[of "\<lambda>c. \<not> is_lt c" t] by auto
  ultimately show ?thesis using ne by blast
qed

lemma ws_dots_Some:
  "ws_dots t = Some v \<Longrightarrow>
     \<exists>w post. t = w @ v @ post \<and> list_all is_space w \<and> v \<noteq> [] \<and> \<not> list_ex is_lt v \<and>
       (post = [] \<or> is_lt (hd post))"
proof (induction t)
  case Nil
  then show ?case by simp
next
  case (Cons c cs)
  show ?case
  proof (cases "is_space c \<and> ws_dots cs = Some v")
    case True
    with Cons.IH obtain w post where "cs = w @ v @ post" "list_all is_space w" "v \<noteq> []"
      "\<not> list_ex is_lt v" "post = [] \<or> is_lt (hd post)" by blast
    with True have "c # cs = (c # w) @ v @ post \<and> list_all is_space (c # w) \<and> v \<noteq> [] \<and>
      \<not> list_ex is_lt v \<and> (post = [] \<or> is_lt (hd post))" by simp
    then show ?thesis by blast
  next
    case False
    with Cons.prems have "dots (c # cs) = Some v" by (auto split: option.splits if_splits)
    from dots_Some[OF this] obtain post where "c # cs = [] @ v @ post" "v \<noteq> []"
      "\<not> list_ex is_lt v" "post = [] \<or> is_lt (hd post)" by auto
    moreover have "list_all is_space []" by simp
    ultimately show ?thesis by blast
  qed
qed

lemma trim_decomp:
  "\<exists>l r. a = l @ trim a @ r \<and> list_all is_space l \<and> list_all is_space r"
proof -
  let ?l = "takeWhile is_space a" and ?a' = "dropWhile is_space a"
  let ?r = "rev (takeWhile is_space (rev ?a'))"
  have "?a' = trim a @ ?r" unfolding trim_def by (rule rev_dropWhile_split)
  then have "a = ?l @ trim a @ ?r" by (metis takeWhile_dropWhile_id)
  moreover have "list_all is_space ?l" by (auto simp: list_all_iff dest: set_takeWhileD)
  moreover have "list_all is_space ?r" by (auto simp: list_all_iff dest: set_takeWhileD)
  ultimately show ?thesis by blast
qed

lemma trim_ends:
  "trim a = [] \<or> (\<not> is_space (hd (trim a)) \<and> \<not> is_space (last (trim a)))"
proof (cases "trim a = []")
  case True
  then show ?thesis by simp
next
  case False
  let ?a' = "dropWhile is_space a"
  let ?t = "dropWhile is_space (rev ?a')"
  have t: "trim a = rev ?t" by (simp add: trim_def)
  with False have ne: "?t \<noteq> []" by simp
  have "\<not> is_space (hd ?t)" using ne hd_dropWhile[of is_space "rev ?a'"] by blast
  then have l: "\<not> is_space (last (trim a))" using ne by (simp add: t last_rev)
  have d: "?a' = trim a @ rev (takeWhile is_space (rev ?a'))"
    unfolding trim_def by (rule rev_dropWhile_split)
  have "?a' \<noteq> []"
  proof
    assume "?a' = []"
    with d have "trim a = []" by (metis append_is_Nil_conv)
    with False show False by simp
  qed
  then have "\<not> is_space (hd ?a')" using hd_dropWhile[of is_space a] by blast
  moreover have "hd ?a' = hd (trim a)" using d False by (metis hd_append2)
  ultimately show ?thesis using l by simp
qed

lemma parseGeneral_sel:
  "title (parseGeneral s md) = title md" "artist (parseGeneral s md) = artist md"
  "creator (parseGeneral s md) = creator md" "version (parseGeneral s md) = version md"
  "circleSize (parseGeneral s md) = circleSize md"
  "audioFilename (parseGeneral s md) =
     (case section_match ''[General]'' s of
        None \<Rightarrow> audioFilename md
      | Some b \<Rightarrow>
          (case key_match ''AudioFilename:'' ws_dots b of
             None \<Rightarrow> audioFilename md
           | Some a \<Rightarrow> Some (trim a)))"
  "mode (parseGeneral s md) =
     (case section_match ''[General]'' s of
        None \<Rightarrow> mode md
      | Some b \<Rightarrow>
          (case key_match ''Mode:'' ws_digits b of
             None \<Rightarrow> mode md
           | Some m \<Rightarrow> Some (parseInt m)))"
  by (simp_all add: parseGeneral_def Let_def split: option.splits)

lemma parseMetadataSection_sel:
  "audioFilename (parseMetadataSection s md) = audioFilename md"
  "mode (parseMetadataSection s md) = mode md"
  "circleSize (parseMetadataSection s md) = circleSize md"
  "title (parseMetadataSection s md) =
     (case section_match ''[Metadata]'' s of
        None \<Rightarrow> title md
      | Some b \<Rightarrow>
          (case key_match ''Title:'' ws_dots b of None \<Rightarrow> title md | Some a \<Rightarrow> Some (trim a)))"
  "artist (parseMetadataSection s md) =
     (case section_match ''[Metadata]'' s of
        None \<Rightarrow> artist md
      | Some b \<Rightarrow>
          (case key_match ''Artist:'' ws_dots b of None \<Rightarrow> artist md | Some a \<Rightarrow> Some (trim a)))"
  "creator (parseMetadataSection s md) =
     (case section_match ''[Metadata]'' s of
        None \<Rightarrow> creator md
      | Some b \<Rightarrow>
          (case key_match ''Creator:'' ws_dots b of None \<Rightarrow> creator md | Some a \<Rightarrow> Some (trim a)))"
  "version (parseMetadataSection s md) =
     (case section_match ''[Metadata]'' s of
        None \<Rightarrow> version md
      | Some b \<Rightarrow>
          (case key_match ''Version:'' ws_dots b of None \<Rightarrow> version md | Some a \<Rightarrow> Some (trim a)))"
  by (simp_all add: parseMetadataSection_def Let_def split: option.splits)

lemma parseDifficulty_sel:
  "title (parseDifficulty s md) = title md" "artist (parseDifficulty s md) = artist md"
  "creator (parseDifficulty s md) = creator md" "version (parseDifficulty s md) = version md"
  "audioFilename (parseDifficulty s md) = audioFilename md"
  "mode (parseDifficulty s md) = mode md"
  "circleSize (parseDifficulty s md) =
     (case section_match ''[Difficulty]'' s of
        None \<Rightarrow> circleSize md
      | Some b \<Rightarrow>
          (case key_match ''CircleSize:'' ws_number b of
             None \<Rightarrow> circleSize md
           | Some c \<Rightarrow> Some (parseFloat c)))"
  by (simp_all add: parseDifficulty_def split: option.splits)

lemma parseMetadata_fields:
  "audioFilename (parseMetadata s) =
     (case section_match ''[General]'' s of
        None \<Rightarrow> None
      | Some b \<Rightarrow> map_option trim (key_match ''AudioFilename:'' ws_dots b))"
  "mode (parseMetadata s) =
     (case section_match ''[General]'' s of
        None \<Rightarrow> None
      | Some b \<Rightarrow> map_option parseInt (key_match ''Mode:'' ws_digits b))"
  "title (parseMetadata s) =
     (case section_match ''[Metadata]'' s of
        None \<Rightarrow> None
      | Some b \<Rightarrow> map_option trim (key_match ''Title:'' ws_dots b))"
  "artist (parseMetadata s) =
     (case section_match ''[Metadata]'' s of
        None \<Rightarrow> None
      | Some b \<Rightarrow> map_option trim (key_match ''Artist:'' ws_dots b))"
  "creator (parseMetadata s) =
     (case section_match ''[Metadata]'' s of
        None \<Rightarrow> None
      | Some b \<Rightarrow> map_option trim (key_match ''Creator:'' ws_dots b))"
  "version (parseMetadata s) =
     (case section_match ''[Metadata]'' s of
        None \<Rightarrow> None
      | Some b \<Rightarrow> map_option trim (key_match ''Version:'' ws_dots b))"
  "circleSize (parseMetadata s) =
     (case section_match ''[Difficulty]'' s of
        None \<Rightarrow> None
      | Some b \<Rightarrow> map_option parseFloat (key_match ''CircleSize:'' ws_number b))"
  by (simp_all add: parseMetadata_def parseGeneral_sel parseMetadataSection_sel
      parseDifficulty_sel no_metadata_def split: option.splits)

lemma parseHitObjects_Inl:
  "parseHitObjects s kc = Inl e \<Longrightarrow>
     split_second ''[HitObjects]'' s = None \<or> split_second ''[HitObjects]'' s = Some []"
  by (cases "split_second ''[HitObjects]'' s") (auto simp: parseHitObjects_def split: if_splits)

lemma parseOsuFile_Inl:
  assumes "parseOsuFile s = Inl e"
  shows "split_second ''[HitObjects]'' s = None \<or> split_second ''[HitObjects]'' s = Some []"
proof (cases "parseHitObjects s (or4 (circleSize (parseMetadata s)))")
  case (Inl e')
  then show ?thesis by (rule parseHitObjects_Inl)
next
  case (Inr objs)
  with assms show ?thesis by (simp add: parseOsuFile_def Let_def)
qed

lemma after_first_ci_iff:
  "after_first_ci p s = Some r \<longleftrightarrow>
     (\<exists>pre h. s = pre @ h @ r \<and> ci_eq h p \<and>
        (\<forall>pre' h' post'. s = pre' @ h' @ post' \<and> ci_eq h' p \<longrightarrow> length pre \<le> length pre'))"
proof
  assume "after_first_ci p s = Some r"
  then show "\<exists>pre h. s = pre @ h @ r \<and> ci_eq h p \<and>
        (\<forall>pre' h' post'. s = pre' @ h' @ post' \<and> ci_eq h' p \<longrightarrow> length pre \<le> length pre')"
    by (rule after_first_ci_Some)
next
  assume "\<exists>pre h. s = pre @ h @ r \<and> ci_eq h p \<and>
        (\<forall>pre' h' post'. s = pre' @ h' @ post' \<and> ci_eq h' p \<longrightarrow> length pre \<le> length pre')"
  then obtain pre h where s: "s = pre @ h @ r" and q: "ci_eq h p"
    and m: "\<forall>pre' h' post'. s = pre' @ h' @ post' \<and> ci_eq h' p \<longrightarrow> length pre \<le> length pre'"
    by blast
  from s q have "after_first_ci p s \<noteq> None" unfolding after_first_ci_None by blast
  then obtain r' where a: "after_first_ci p s = Some r'" by auto
  from after_first_ci_Some[OF a] obtain pre' h' where s': "s = pre' @ h' @ r'" and q': "ci_eq h' p"
    and m': "\<forall>pre'' h'' post''. s = pre'' @ h'' @ post'' \<and> ci_eq h'' p \<longrightarrow> length pre' \<le> length pre''"
    by blast
  from m s' q' have "length pre \<le> length pre'" by blast
  moreover from m' s q have "length pre' \<le> length pre" by blast
  moreover have "length h = length h'" using q q' by (simp add: ci_eq_length)
  ultimately have "length (pre @ h) = length (pre' @ h')" by simp
  moreover have "(pre @ h) @ r = (pre' @ h') @ r'" using s s' by simp
  ultimately have "r = r'"
    using append_eq_append_conv[of "pre @ h" "pre' @ h'" r r'] by blast
  with a show "after_first_ci p s = Some r" by simp
qed

lemma section_match_iff:
  "section_match H s = Some b \<longleftrightarrow>
     (\<exists>pre h post. s = pre @ h @ b @ post \<and> ci_eq h H \<and> CHR ''['' \<notin> set b \<and>
        (post = [] \<or> hd post = CHR ''['') \<and>
        (\<forall>pre' h' post'. s = pre' @ h' @ post' \<and> ci_eq h' H \<longrightarrow> length pre \<le> length pre'))"
proof
  assume "section_match H s = Some b"
  then show "\<exists>pre h post. s = pre @ h @ b @ post \<and> ci_eq h H \<and> CHR ''['' \<notin> set b \<and>
        (post = [] \<or> hd post = CHR ''['') \<and>
        (\<forall>pre' h' post'. s = pre' @ h' @ post' \<and> ci_eq h' H \<longrightarrow> length pre \<le> length pre')"
    by (rule section_match_Some)
next
  assume "\<exists>pre h post. s = pre @ h @ b @ post \<and> ci_eq h H \<and> CHR ''['' \<notin> set b \<and>
        (post = [] \<or> hd post = CHR ''['') \<and>
        (\<forall>pre' h' post'. s = pre' @ h' @ post' \<and> ci_eq h' H \<longrightarrow> length pre \<le> length pre')"
  then obtain pre h post where s: "s = pre @ h @ b @ post" and q: "ci_eq h H"
    and nb: "CHR ''['' \<notin> set b" and p: "post = [] \<or> hd post = CHR ''[''"
    and m: "\<forall>pre' h' post'. s = pre' @ h' @ post' \<and> ci_eq h' H \<longrightarrow> length pre \<le> length pre'"
    by blast
  from s q m have a: "after_first_ci H s = Some (b @ post)"
    unfolding after_first_ci_iff by blast
  have "list_all (\<lambda>c. c \<noteq> CHR ''['') b" using nb by (auto simp: list_all_iff)
  moreover have "post = [] \<or> \<not> (hd post \<noteq> CHR ''['')" using p by simp
  ultimately have "takeWhile (\<lambda>c. c \<noteq> CHR ''['') (b @ post) = b"
    using takeWhile_all[of "\<lambda>c. c \<noteq> CHR ''[''" b post] by blast
  with a show "section_match H s = Some b" by (simp add: section_match_def)
qed

lemma key_at_Some:
  "key_at K rest t = Some v \<longleftrightarrow> (\<exists>k post. t = k @ post \<and> ci_eq k K \<and> rest post = Some v)"
proof
  assume a: "key_at K rest t = Some v"
  then have c: "ci_prefix K t" and r: "rest (drop (length K) t) = Some v"
    by (auto simp: key_at_def split: if_splits)
  have "t = take (length K) t @ drop (length K) t" by simp
  with ci_prefix_take[OF c] r
  show "\<exists>k post. t = k @ post \<and> ci_eq k K \<and> rest post = Some v" by blast
next
  assume "\<exists>k post. t = k @ post \<and> ci_eq k K \<and> rest post = Some v"
  then obtain k post where t: "t = k @ post" and q: "ci_eq k K" and r: "rest post = Some v"
    by blast
  from t q have "ci_prefix K t" by (auto simp: ci_prefix_iff)
  moreover have "drop (length K) t = post" using t ci_eq_length[OF q] by simp
  ultimately show "key_at K rest t = Some v" using r by (simp add: key_at_def)
qed

lemma key_at_None:
  "key_at K rest t = None \<longleftrightarrow> (\<forall>k post. t = k @ post \<and> ci_eq k K \<longrightarrow> rest post = None)"
proof -
  have "key_at K rest t = None \<longleftrightarrow> \<not> (\<exists>v. key_at K rest t = Some v)" by auto
  also have "\<dots> \<longleftrightarrow> \<not> (\<exists>v k post. t = k @ post \<and> ci_eq k K \<and> rest post = Some v)"
    unfolding key_at_Some by blast
  also have "\<dots> \<longleftrightarrow> (\<forall>k post. t = k @ post \<and> ci_eq k K \<longrightarrow> rest post = None)"
    by (metis not_Some_eq)
  finally show ?thesis .
qed

lemma key_match_search:
  "K \<noteq> [] \<Longrightarrow>
   key_match K rest b = Some v \<longleftrightarrow>
     (\<exists>pre t. b = pre @ t \<and> key_at K rest t = Some v \<and>
        (\<forall>pre' t'. b = pre' @ t' \<and> length pre' < length pre \<longrightarrow> key_at K rest t' = None))"
proof (induction b)
  case Nil
  then have "key_at K rest [] = None" by (cases K) (auto simp: key_at_def)
  then show ?case by simp
next
  case (Cons c cs)
  have km: "key_match K rest (c # cs) =
      (case key_at K rest (c # cs) of Some v \<Rightarrow> Some v | None \<Rightarrow> key_match K rest cs)"
    by (simp add: key_at_def)
  show ?case
  proof (cases "key_at K rest (c # cs)")
    case (Some v')
    show ?thesis
    proof
      assume "key_match K rest (c # cs) = Some v"
      with Some km have "key_at K rest (c # cs) = Some v" by simp
      then have "c # cs = [] @ (c # cs) \<and> key_at K rest (c # cs) = Some v \<and>
        (\<forall>pre' t'. c # cs = pre' @ t' \<and> length pre' < length ([]::string) \<longrightarrow> key_at K rest t' = None)"
        by simp
      then show "\<exists>pre t. c # cs = pre @ t \<and> key_at K rest t = Some v \<and>
        (\<forall>pre' t'. c # cs = pre' @ t' \<and> length pre' < length pre \<longrightarrow> key_at K rest t' = None)"
        by blast
    next
      assume "\<exists>pre t. c # cs = pre @ t \<and> key_at K rest t = Some v \<and>
        (\<forall>pre' t'. c # cs = pre' @ t' \<and> length pre' < length pre \<longrightarrow> key_at K rest t' = None)"
      then obtain pre t where e: "c # cs = pre @ t" and m: "key_at K rest t = Some v"
        and l: "\<forall>pre' t'. c # cs = pre' @ t' \<and> length pre' < length pre \<longrightarrow> key_at K rest t' = None"
        by blast
      have "pre = []"
      proof (rule ccontr)
        assume "pre \<noteq> []"
        then have "c # cs = [] @ (c # cs) \<and> length ([]::string) < length pre" by simp
        with l have "key_at K rest (c # cs) = None" by blast
        with Some show False by simp
      qed
      with e m have "key_at K rest (c # cs) = Some v" by simp
      with km show "key_match K rest (c # cs) = Some v" by simp
    qed
  next
    case None
    with km have s: "key_match K rest (c # cs) = key_match K rest cs" by simp
    have "(\<exists>pre t. c # cs = pre @ t \<and> key_at K rest t = Some v \<and>
        (\<forall>pre' t'. c # cs = pre' @ t' \<and> length pre' < length pre \<longrightarrow> key_at K rest t' = None))
      \<longleftrightarrow> (\<exists>pre t. cs = pre @ t \<and> key_at K rest t = Some v \<and>
        (\<forall>pre' t'. cs = pre' @ t' \<and> length pre' < length pre \<longrightarrow> key_at K rest t' = None))"
    proof
      assume "\<exists>pre t. c # cs = pre @ t \<and> key_at K rest t = Some v \<and>
        (\<forall>pre' t'. c # cs = pre' @ t' \<and> length pre' < length pre \<longrightarrow> key_at K rest t' = None)"
      then obtain pre t where e: "c # cs = pre @ t" and m: "key_at K rest t = Some v"
        and l: "\<forall>pre' t'. c # cs = pre' @ t' \<and> length pre' < length pre \<longrightarrow> key_at K rest t' = None"
        by blast
      from e m None obtain pre1 where p: "pre = c # pre1" by (cases pre) auto
      with e have e1: "cs = pre1 @ t" by simp
      have "key_at K rest t' = None" if "cs = pre' @ t'" "length pre' < length pre1" for pre' t'
      proof -
        from that p have "c # cs = (c # pre') @ t' \<and> length (c # pre') < length pre" by simp
        with l show ?thesis by blast
      qed
      with e1 m show "\<exists>pre t. cs = pre @ t \<and> key_at K rest t = Some v \<and>
        (\<forall>pre' t'. cs = pre' @ t' \<and> length pre' < length pre \<longrightarrow> key_at K rest t' = None)"
        by blast
    next
      assume "\<exists>pre t. cs = pre @ t \<and> key_at K rest t = Some v \<and>
        (\<forall>pre' t'. cs = pre' @ t' \<and> length pre' < length pre \<longrightarrow> key_at K rest t' = None)"
      then obtain pre t where e: "cs = pre @ t" and m: "key_at K rest t = Some v"
        and l: "\<forall>pre' t'. cs = pre' @ t' \<and> length pre' < length pre \<longrightarrow> key_at K rest t' = None"
        by blast
      have "key_at K rest t' = None"
        if "c # cs = pre' @ t'" "length pre' < length (c # pre)" for pre' t'
      proof (cases pre')
        case Nil
        with that None show ?thesis by simp
      next
        case (Cons a pre'')
        with that have "cs = pre'' @ t' \<and> length pre'' < length pre" by simp
        with l show ?thesis by blast
      qed
      moreover have "c # cs = (c # pre) @ t" using e by simp
      ultimately show "\<exists>pre t. c # cs = pre @ t \<and> key_at K rest t = Some v \<and>
        (\<forall>pre' t'. c # cs = pre' @ t' \<and> length pre' < length pre \<longrightarrow> key_at K rest t' = None)"
        using m by blast
    qed
    with s Cons.IH[OF Cons.prems] show ?thesis by simp
  qed
qed

lemma key_match_iff:
  assumes "K \<noteq> []"
  shows "key_match K rest b = Some v \<longleftrightarrow>
     (\<exists>pre k post. b = pre @ k @ post \<and> ci_eq k K \<and> rest post = Some v \<and>
        (\<forall>pre' k' post'. b = pre' @ k' @ post' \<and> ci_eq k' K \<and> length pre' < length pre \<longrightarrow>
           rest post' = None))"
proof -
  have "(\<exists>pre t. b = pre @ t \<and> key_at K rest t = Some v \<and>
        (\<forall>pre' t'. b = pre' @ t' \<and> length pre' < length pre \<longrightarrow> key_at K rest t' = None))
     \<longleftrightarrow> (\<exists>pre k post. b = pre @ k @ post \<and> ci_eq k K \<and> rest post = Some v \<and>
        (\<forall>pre' k' post'. b = pre' @ k' @ post' \<and> ci_eq k' K \<and> length pre' < length pre \<longrightarrow>
           rest post' = None))"
    unfolding key_at_Some key_at_None by (rule iffI; clarify; blast)
  with key_match_search[OF assms] show ?thesis by simp
qed

lemma digit_no_space: "is_digit c \<Longrightarrow> \<not> is_space c"
  by (auto simp: is_digit_def is_space_def)

lemma dot_no_space: "\<not> is_space (CHR ''.'')"
  by (simp add: is_space_def)

lemma lt_is_space: "is_lt c \<Longrightarrow> is_space c"
  by (auto simp: is_lt_def is_space_def)

lemma ws_digits_iff:
  "ws_digits t = Some v \<longleftrightarrow>
     (\<exists>w post. t = w @ v @ post \<and> list_all is_space w \<and> v \<noteq> [] \<and> list_all is_digit v \<and>
        (post = [] \<or> \<not> is_digit (hd post)))"
proof
  assume "ws_digits t = Some v"
  then obtain r where "digits1 (dropWhile is_space t) = Some (v, r)"
    by (auto simp: ws_digits_def)
  then have d: "dropWhile is_space t = v @ r" "v \<noteq> []" "list_all is_digit v"
    "r = [] \<or> \<not> is_digit (hd r)"
    by (simp_all add: digits1_iff)
  have "t = takeWhile is_space t @ v @ r" using d(1) by (metis takeWhile_dropWhile_id)
  moreover have "list_all is_space (takeWhile is_space t)"
    by (auto simp: list_all_iff dest: set_takeWhileD)
  ultimately show "\<exists>w post. t = w @ v @ post \<and> list_all is_space w \<and> v \<noteq> [] \<and>
      list_all is_digit v \<and> (post = [] \<or> \<not> is_digit (hd post))"
    using d by blast
next
  assume "\<exists>w post. t = w @ v @ post \<and> list_all is_space w \<and> v \<noteq> [] \<and> list_all is_digit v \<and>
        (post = [] \<or> \<not> is_digit (hd post))"
  then obtain w post where t: "t = w @ v @ post" and w: "list_all is_space w" and ne: "v \<noteq> []"
    and dv: "list_all is_digit v" and p: "post = [] \<or> \<not> is_digit (hd post)"
    by blast
  from ne dv have "is_digit (hd v)" by (cases v) auto
  then have "\<not> is_space (hd (v @ post))" using ne by (simp add: digit_no_space)
  then have "dropWhile is_space (w @ v @ post) = v @ post"
    using takeWhile_all[of is_space w "v @ post"] w by blast
  moreover have "digits1 (v @ post) = Some (v, post)" using ne dv p by (simp add: digits1_iff)
  ultimately show "ws_digits t = Some v" by (simp add: ws_digits_def t)
qed

lemma ws_number_iff:
  "ws_number t = Some v \<longleftrightarrow>
     (\<exists>w post. t = w @ v @ post \<and> list_all is_space w \<and> v \<noteq> [] \<and>
        list_all (\<lambda>c. is_digit c \<or> c = CHR ''.'') v \<and>
        (post = [] \<or> \<not> (is_digit (hd post) \<or> hd post = CHR ''.'')))"
proof
  let ?n = "\<lambda>c. is_digit c \<or> c = CHR ''.''"
  assume "ws_number t = Some v"
  then have v: "v = takeWhile ?n (dropWhile is_space t)" and ne: "v \<noteq> []"
    by (auto simp: ws_number_def Let_def split: if_splits)
  let ?r = "dropWhile ?n (dropWhile is_space t)"
  have "dropWhile is_space t = v @ ?r" by (simp add: v)
  then have "t = takeWhile is_space t @ v @ ?r" by (metis takeWhile_dropWhile_id)
  moreover have "list_all is_space (takeWhile is_space t)"
    by (auto simp: list_all_iff dest: set_takeWhileD)
  moreover have "list_all ?n v" unfolding v by (auto simp: list_all_iff dest: set_takeWhileD)
  moreover have "?r = [] \<or> \<not> ?n (hd ?r)"
    using hd_dropWhile[of ?n "dropWhile is_space t"] by blast
  ultimately show "\<exists>w post. t = w @ v @ post \<and> list_all is_space w \<and> v \<noteq> [] \<and>
        list_all ?n v \<and> (post = [] \<or> \<not> (is_digit (hd post) \<or> hd post = CHR ''.''))"
    using ne by blast
next
  let ?n = "\<lambda>c. is_digit c \<or> c = CHR ''.''"
  assume "\<exists>w post. t = w @ v @ post \<and> list_all is_space w \<and> v \<noteq> [] \<and>
        list_all ?n v \<and> (post = [] \<or> \<not> (is_digit (hd post) \<or> hd post = CHR ''.''))"
  then obtain w post where t: "t = w @ v @ post" and w: "list_all is_space w" and ne: "v \<noteq> []"
    and nv: "list_all ?n v" and p: "post = [] \<or> \<not> ?n (hd post)"
    by blast
  from ne nv have "?n (hd v)" by (cases v) auto
  then have "\<not> is_space (hd (v @ post))" using ne by (auto simp: digit_no_space dot_no_space)
  then have "dropWhile is_space (w @ v @ post) = v @ post"
    using takeWhile_all[of is_space w "v @ post"] w by blast
  moreover have "takeWhile ?n (v @ post) = v" using takeWhile_all[of ?n v post] nv p by blast
  ultimately show "ws_number t = Some v" using ne by (simp add: ws_number_def t)
qed

lemma dots_None: "dots t = None \<longleftrightarrow> t = [] \<or> is_lt (hd t)"
  by (cases t) (auto simp: dots_def)

lemma ws_dots_None:
  "ws_dots t = None \<Longrightarrow> t = w @ r \<Longrightarrow> list_all is_space w \<Longrightarrow> r = [] \<or> is_lt (hd r)"
proof (induction t arbitrary: w)
  case Nil
  then show ?case by simp
next
  case (Cons c cs)
  from Cons.prems(1) have d: "dots (c # cs) = None"
    by (auto split: option.splits if_splits)
  then have lt: "is_lt c" by (simp add: dots_None)
  then have "is_space c" by (rule lt_is_space)
  with Cons.prems(1) have n: "ws_dots cs = None" by (auto split: option.splits)
  show ?case
  proof (cases w)
    case Nil
    with Cons.prems(2) lt show ?thesis by auto
  next
    case (Cons a w')
    with Cons.prems(2,3) have "cs = w' @ r" "list_all is_space w'" by simp_all
    with Cons.IH[OF n] show ?thesis by blast
  qed
qed

lemma dots_iff:
  "dots t = Some v \<longleftrightarrow>
     (\<exists>post. t = v @ post \<and> v \<noteq> [] \<and> \<not> list_ex is_lt v \<and> (post = [] \<or> is_lt (hd post)))"
proof
  assume "dots t = Some v"
  then show "\<exists>post. t = v @ post \<and> v \<noteq> [] \<and> \<not> list_ex is_lt v \<and> (post = [] \<or> is_lt (hd post))"
    by (rule dots_Some)
next
  assume "\<exists>post. t = v @ post \<and> v \<noteq> [] \<and> \<not> list_ex is_lt v \<and> (post = [] \<or> is_lt (hd post))"
  then obtain post where t: "t = v @ post" and ne: "v \<noteq> []" and nl: "\<not> list_ex is_lt v"
    and p: "post = [] \<or> is_lt (hd post)" by blast
  have "list_all (\<lambda>c. \<not> is_lt c) v" using nl by (auto simp: list_all_iff list_ex_iff)
  then have "takeWhile (\<lambda>c. \<not> is_lt c) (v @ post) = v"
    using takeWhile_all[of "\<lambda>c. \<not> is_lt c" v post] p by blast
  then show "dots t = Some v" using ne by (simp add: dots_def t)
qed

lemma ws_dots_iff:
  "ws_dots t = Some v \<longleftrightarrow>
     (\<exists>w post. t = w @ v @ post \<and> list_all is_space w \<and> v \<noteq> [] \<and> \<not> list_ex is_lt v \<and>
        (post = [] \<or> is_lt (hd post)) \<and>
        (\<forall>w' r'. t = w' @ r' \<and> list_all is_space w' \<and> length w < length w' \<longrightarrow>
           r' = [] \<or> is_lt (hd r')))"
proof (induction t arbitrary: v)
  case Nil
  show ?case by simp
next
  case (Cons c cs)
  show ?case
  proof (cases "is_space c \<and> ws_dots cs \<noteq> None")
    case True
    then obtain v' where sp: "is_space c" and v': "ws_dots cs = Some v'" by auto
    then have eq: "ws_dots (c # cs) = Some v'" by simp
    from Cons.IH[of v'] v' obtain w0 post0 where cs0: "cs = w0 @ v' @ post0"
      and w0: "list_all is_space w0" and ne0: "v' \<noteq> []" and nl0: "\<not> list_ex is_lt v'"
      by blast
    show ?thesis
    proof
      assume "ws_dots (c # cs) = Some v"
      with eq have vv: "v' = v" by simp
      from Cons.IH[of v] v' vv obtain w post where cs: "cs = w @ v @ post"
        and w: "list_all is_space w" and ne: "v \<noteq> []" and nl: "\<not> list_ex is_lt v"
        and p: "post = [] \<or> is_lt (hd post)"
        and g: "\<forall>w' r'. cs = w' @ r' \<and> list_all is_space w' \<and> length w < length w' \<longrightarrow>
           r' = [] \<or> is_lt (hd r')"
        by blast
      have "r' = [] \<or> is_lt (hd r')"
        if "c # cs = w' @ r'" "list_all is_space w'" "length (c # w) < length w'" for w' r'
      proof -
        from that(3) obtain a w'' where w': "w' = a # w''" by (cases w') auto
        with that have "cs = w'' @ r' \<and> list_all is_space w'' \<and> length w < length w''" by simp
        with g show ?thesis by blast
      qed
      moreover have "c # cs = (c # w) @ v @ post" using cs by simp
      moreover have "list_all is_space (c # w)" using sp w by simp
      ultimately show "\<exists>w post. c # cs = w @ v @ post \<and> list_all is_space w \<and> v \<noteq> [] \<and>
        \<not> list_ex is_lt v \<and> (post = [] \<or> is_lt (hd post)) \<and>
        (\<forall>w' r'. c # cs = w' @ r' \<and> list_all is_space w' \<and> length w < length w' \<longrightarrow>
           r' = [] \<or> is_lt (hd r'))"
        using ne nl p by blast
    next
      assume "\<exists>w post. c # cs = w @ v @ post \<and> list_all is_space w \<and> v \<noteq> [] \<and>
        \<not> list_ex is_lt v \<and> (post = [] \<or> is_lt (hd post)) \<and>
        (\<forall>w' r'. c # cs = w' @ r' \<and> list_all is_space w' \<and> length w < length w' \<longrightarrow>
           r' = [] \<or> is_lt (hd r'))"
      then obtain w post where t: "c # cs = w @ v @ post"
        and w: "list_all is_space w" and ne: "v \<noteq> []" and nl: "\<not> list_ex is_lt v"
        and p: "post = [] \<or> is_lt (hd post)"
        and g: "\<forall>w' r'. c # cs = w' @ r' \<and> list_all is_space w' \<and> length w < length w' \<longrightarrow>
           r' = [] \<or> is_lt (hd r')"
        by blast
      have "w \<noteq> []"
      proof
        assume "w = []"
        then have "c # cs = (c # w0) @ (v' @ post0) \<and> list_all is_space (c # w0) \<and>
          length w < length (c # w0)"
          using cs0 sp w0 by simp
        with g have "v' @ post0 = [] \<or> is_lt (hd (v' @ post0))" by blast
        with ne0 have "is_lt (hd v')" by simp
        with ne0 nl0 show False by (cases v') auto
      qed
      then obtain w1 where w1: "w = c # w1" using t by (cases w) auto
      with t w have cs: "cs = w1 @ v @ post" and sw1: "list_all is_space w1" by simp_all
      have "r' = [] \<or> is_lt (hd r')"
        if "cs = w' @ r'" "list_all is_space w'" "length w1 < length w'" for w' r'
      proof -
        from that sp w1 have "c # cs = (c # w') @ r' \<and> list_all is_space (c # w') \<and>
          length w < length (c # w')" by simp
        with g show ?thesis by blast
      qed
      with cs sw1 ne nl p have "ws_dots cs = Some v"
        unfolding Cons.IH[of v] by blast
      with sp show "ws_dots (c # cs) = Some v" by simp
    qed
  next
    case False
    then have eq: "ws_dots (c # cs) = dots (c # cs)" by (auto split: option.splits)
    show ?thesis
    proof
      assume "ws_dots (c # cs) = Some v"
      with eq have "dots (c # cs) = Some v" by simp
      then obtain post where t: "c # cs = [] @ v @ post" and ne: "v \<noteq> []"
        and nl: "\<not> list_ex is_lt v" and p: "post = [] \<or> is_lt (hd post)"
        unfolding dots_iff by auto
      have "r' = [] \<or> is_lt (hd r')"
        if "c # cs = w' @ r'" "list_all is_space w'" "length ([]::string) < length w'" for w' r'
      proof -
        from that(3) obtain a w'' where w': "w' = a # w''" by (cases w') auto
        with that have sp: "is_space c" and cs: "cs = w'' @ r'" and sw: "list_all is_space w''"
          by simp_all
        with False have "ws_dots cs = None" by simp
        from ws_dots_None[OF this cs sw] show ?thesis .
      qed
      moreover have "list_all is_space ([]::string)" by simp
      ultimately show "\<exists>w post. c # cs = w @ v @ post \<and> list_all is_space w \<and> v \<noteq> [] \<and>
        \<not> list_ex is_lt v \<and> (post = [] \<or> is_lt (hd post)) \<and>
        (\<forall>w' r'. c # cs = w' @ r' \<and> list_all is_space w' \<and> length w < length w' \<longrightarrow>
           r' = [] \<or> is_lt (hd r'))"
        using t ne nl p by blast
    next
      assume "\<exists>w post. c # cs = w @ v @ post \<and> list_all is_space w \<and> v \<noteq> [] \<and>
        \<not> list_ex is_lt v \<and> (post = [] \<or> is_lt (hd post)) \<and>
        (\<forall>w' r'. c # cs = w' @ r' \<and> list_all is_space w' \<and> length w < length w' \<longrightarrow>
           r' = [] \<or> is_lt (hd r'))"
      then obtain w post where t: "c # cs = w @ v @ post"
        and w: "list_all is_space w" and ne: "v \<noteq> []" and nl: "\<not> list_ex is_lt v"
        and p: "post = [] \<or> is_lt (hd post)"
        by blast
      have "w = []"
      proof (rule ccontr)
        assume "w \<noteq> []"
        then obtain w1 where w1: "w = c # w1" using t by (cases w) auto
        with t w have sp: "is_space c" and cs: "cs = w1 @ (v @ post)"
          and sw1: "list_all is_space w1" by simp_all
        with False have "ws_dots cs = None" by simp
        from ws_dots_None[OF this cs sw1] ne have "is_lt (hd v)" by simp
        with ne nl show False by (cases v) auto
      qed
      with t ne nl p have "dots (c # cs) = Some v" unfolding dots_iff by auto
      with eq show "ws_dots (c # cs) = Some v" by simp
    qed
  qed
qed

text \<open>
  Claim C9, as the code has it. \<open>parseMetadata\<close> is a total function: it has no error
  result, and a parse that fails fails on the hit-object section (last conjunct). For
  every text:
  \<^item> a section is found iff its header occurs in the text, letter case ignored; its body
    is the text after the leftmost occurrence up to the next character \<^verbatim>\<open>[\<close>, wherever
    that stands (also inside a value), or to the end of the text;
  \<^item> without the section, all its fields are unset;
  \<^item> every field is the result of its own match on the body of its section, whatever the
    other fields' matches give. The key is searched in the whole body, letter case
    ignored, not only at the start of a line, and the match is the leftmost occurrence
    of the key that its value expression matches after;
  \<^item> a string value is found after the key and the longest run of spaces (line ends
    among them) that leaves a character of a line: it runs to the end of that line
    and is stored trimmed. What \<open>trim\<close> returns starts and ends with no space and
    differs from its argument by spaces only;
  \<^item> \<open>mode\<close> is the run of digits after the key and optional spaces, \<open>circleSize\<close> the
    run of digits and dots there; where there is none the field is unset.
\<close>

theorem metadata_extraction:
  "(\<forall>H. (section_match H s = None \<longleftrightarrow> \<not> (\<exists>pre h post. s = pre @ h @ post \<and> ci_eq h H)) \<and>
        (\<forall>b. section_match H s = Some b \<longleftrightarrow>
           (\<exists>pre h post. s = pre @ h @ b @ post \<and> ci_eq h H \<and> CHR ''['' \<notin> set b \<and>
              (post = [] \<or> hd post = CHR ''['') \<and>
              (\<forall>pre' h' post'. s = pre' @ h' @ post' \<and> ci_eq h' H \<longrightarrow> length pre \<le> length pre')))) \<and>
   (\<not> (\<exists>pre h post. s = pre @ h @ post \<and> ci_eq h ''[General]'') \<longrightarrow>
      audioFilename (parseMetadata s) = None \<and> mode (parseMetadata s) = None) \<and>
   (\<not> (\<exists>pre h post. s = pre @ h @ post \<and> ci_eq h ''[Metadata]'') \<longrightarrow>
      title (parseMetadata s) = None \<and> artist (parseMetadata s) = None \<and>
      creator (parseMetadata s) = None \<and> version (parseMetadata s) = None) \<and>
   (\<not> (\<exists>pre h post. s = pre @ h @ post \<and> ci_eq h ''[Difficulty]'') \<longrightarrow>
      circleSize (parseMetadata s) = None) \<and>
   audioFilename (parseMetadata s) =
     (case section_match ''[General]'' s of
        None \<Rightarrow> None
      | Some b \<Rightarrow> map_option trim (key_match ''AudioFilename:'' ws_dots b)) \<and>
   mode (parseMetadata s) =
     (case section_match ''[General]'' s of
        None \<Rightarrow> None
      | Some b \<Rightarrow> map_option parseInt (key_match ''Mode:'' ws_digits b)) \<and>
   title (parseMetadata s) =
     (case section_match ''[Metadata]'' s of
        None \<Rightarrow> None
      | Some b \<Rightarrow> map_option trim (key_match ''Title:'' ws_dots b)) \<and>
   artist (parseMetadata s) =
     (case section_match ''[Metadata]'' s of
        None \<Rightarrow> None
      | Some b \<Rightarrow> map_option trim (key_match ''Artist:'' ws_dots b)) \<and>
   creator (parseMetadata s) =
     (case section_match ''[Metadata]'' s of
        None \<Rightarrow> None
      | Some b \<Rightarrow> map_option trim (key_match ''Creator:'' ws_dots b)) \<and>
   version (parseMetadata s) =
     (case section_match ''[Metadata]'' s of
        None \<Rightarrow> None
      | Some b \<Rightarrow> map_option trim (key_match ''Version:'' ws_dots b)) \<and>
   circleSize (parseMetadata s) =
     (case section_match ''[Difficulty]'' s of
        None \<Rightarrow> None
      | Some b \<Rightarrow> map_option parseFloat (key_match ''CircleSize:'' ws_number b)) \<and>
   (\<forall>K rest b v. K \<noteq> [] \<longrightarrow>
      (key_match K rest b = Some v \<longleftrightarrow>
         (\<exists>pre k post. b = pre @ k @ post \<and> ci_eq k K \<and> rest post = Some v \<and>
            (\<forall>pre' k' post'. b = pre' @ k' @ post' \<and> ci_eq k' K \<and> length pre' < length pre \<longrightarrow>
               rest post' = None)))) \<and>
   (\<forall>t v. ws_dots t = Some v \<longleftrightarrow>
      (\<exists>w post. t = w @ v @ post \<and> list_all is_space w \<and> v \<noteq> [] \<and> \<not> list_ex is_lt v \<and>
         (post = [] \<or> is_lt (hd post)) \<and>
         (\<forall>w' r'. t = w' @ r' \<and> list_all is_space w' \<and> length w < length w' \<longrightarrow>
            r' = [] \<or> is_lt (hd r')))) \<and>
   (\<forall>t v. ws_digits t = Some v \<longleftrightarrow>
      (\<exists>w post. t = w @ v @ post \<and> list_all is_space w \<and> v \<noteq> [] \<and> list_all is_digit v \<and>
         (post = [] \<or> \<not> is_digit (hd post)))) \<and>
   (\<forall>t v. ws_number t = Some v \<longleftrightarrow>
      (\<exists>w post. t = w @ v @ post \<and> list_all is_space w \<and> v \<noteq> [] \<and>
         list_all (\<lambda>c. is_digit c \<or> c = CHR ''.'') v \<and>
         (post = [] \<or> \<not> (is_digit (hd post) \<or> hd post = CHR ''.'')))) \<and>
   (\<forall>a. (trim a = [] \<or> (\<not> is_space (hd (trim a)) \<and> \<not> is_space (last (trim a)))) \<and>
        (\<exists>l r. a = l @ trim a @ r \<and> list_all is_space l \<and> list_all is_space r)) \<and>
   (\<forall>e. parseOsuFile s = Inl e \<longrightarrow>
      split_second ''[HitObjects]'' s = None \<or> split_second ''[HitObjects]'' s = Some [])"
proof -
  have A: "\<forall>H. (section_match H s = None \<longleftrightarrow> \<not> (\<exists>pre h post. s = pre @ h @ post \<and> ci_eq h H)) \<and>
        (\<forall>b. section_match H s = Some b \<longleftrightarrow>
           (\<exists>pre h post. s = pre @ h @ b @ post \<and> ci_eq h H \<and> CHR ''['' \<notin> set b \<and>
              (post = [] \<or> hd post = CHR ''['') \<and>
              (\<forall>pre' h' post'. s = pre' @ h' @ post' \<and> ci_eq h' H \<longrightarrow> length pre \<le> length pre')))"
    by (intro allI conjI) (rule section_match_None, rule section_match_iff)
  have G: "\<not> (\<exists>pre h post. s = pre @ h @ post \<and> ci_eq h ''[General]'') \<longrightarrow>
      audioFilename (parseMetadata s) = None \<and> mode (parseMetadata s) = None"
  proof
    assume "\<not> (\<exists>pre h post. s = pre @ h @ post \<and> ci_eq h ''[General]'')"
    then have "section_match ''[General]'' s = None" by (rule section_match_None[THEN iffD2])
    then show "audioFilename (parseMetadata s) = None \<and> mode (parseMetadata s) = None"
      by (simp add: parseMetadata_fields)
  qed
  have M: "\<not> (\<exists>pre h post. s = pre @ h @ post \<and> ci_eq h ''[Metadata]'') \<longrightarrow>
      title (parseMetadata s) = None \<and> artist (parseMetadata s) = None \<and>
      creator (parseMetadata s) = None \<and> version (parseMetadata s) = None"
  proof
    assume "\<not> (\<exists>pre h post. s = pre @ h @ post \<and> ci_eq h ''[Metadata]'')"
    then have "section_match ''[Metadata]'' s = None" by (rule section_match_None[THEN iffD2])
    then show "title (parseMetadata s) = None \<and> artist (parseMetadata s) = None \<and>
      creator (parseMetadata s) = None \<and> version (parseMetadata s) = None"
      by (simp add: parseMetadata_fields)
  qed
  have D: "\<not> (\<exists>pre h post. s = pre @ h @ post \<and> ci_eq h ''[Difficulty]'') \<longrightarrow>
      circleSize (parseMetadata s) = None"
  proof
    assume "\<not> (\<exists>pre h post. s = pre @ h @ post \<and> ci_eq h ''[Difficulty]'')"
    then have "section_match ''[Difficulty]'' s = None" by (rule section_match_None[THEN iffD2])
    then show "circleSize (parseMetadata s) = None"
      by (simp add: parseMetadata_fields)
  qed
  have K: "\<forall>K rest b v. K \<noteq> [] \<longrightarrow>
      (key_match K rest b = Some v \<longleftrightarrow>
         (\<exists>pre k post. b = pre @ k @ post \<and> ci_eq k K \<and> rest post = Some v \<and>
            (\<forall>pre' k' post'. b = pre' @ k' @ post' \<and> ci_eq k' K \<and> length pre' < length pre \<longrightarrow>
               rest post' = None)))"
    by (intro allI impI) (rule key_match_iff)
  have W: "\<forall>t v. ws_dots t = Some v \<longleftrightarrow>
      (\<exists>w post. t = w @ v @ post \<and> list_all is_space w \<and> v \<noteq> [] \<and> \<not> list_ex is_lt v \<and>
         (post = [] \<or> is_lt (hd post)) \<and>
         (\<forall>w' r'. t = w' @ r' \<and> list_all is_space w' \<and> length w < length w' \<longrightarrow>
            r' = [] \<or> is_lt (hd r')))"
    by (intro allI) (rule ws_dots_iff)
  have N: "\<forall>t v. ws_digits t = Some v \<longleftrightarrow>
      (\<exists>w post. t = w @ v @ post \<and> list_all is_space w \<and> v \<noteq> [] \<and> list_all is_digit v \<and>
         (post = [] \<or> \<not> is_digit (hd post)))"
    by (intro allI) (rule ws_digits_iff)
  have R: "\<forall>t v. ws_number t = Some v \<longleftrightarrow>
      (\<exists>w post. t = w @ v @ post \<and> list_all is_space w \<and> v \<noteq> [] \<and>
         list_all (\<lambda>c. is_digit c \<or> c = CHR ''.'') v \<and>
         (post = [] \<or> \<not> (is_digit (hd post) \<or> hd post = CHR ''.'')))"
    by (intro allI) (rule ws_number_iff)
  have T: "\<forall>a. (trim a = [] \<or> (\<not> is_space (hd (trim a)) \<and> \<not> is_space (last (trim a)))) \<and>
        (\<exists>l r. a = l @ trim a @ r \<and> list_all is_space l \<and> list_all is_space r)"
    by (intro allI conjI) (rule trim_ends, rule trim_decomp)
  have E: "\<forall>e. parseOsuFile s = Inl e \<longrightarrow>
      split_second ''[HitObjects]'' s = None \<or> split_second ''[HitObjects]'' s = Some []"
    by (intro allI impI) (rule parseOsuFile_Inl)
  note F = parseMetadata_fields[of s]
  show ?thesis
    by (intro conjI) (fact A G M D F K W N R T E)+
qed

theorem metadata_extraction_witness:
  "section_match ''[General]'' ''[general]\<newline>AudioFilename: a.mp3 \<newline>PreviewMode: 07x\<newline>[METADATA]\<newline>title:  T \<newline>Artist:A\<newline>[Difficulty]\<newline>CircleSize:4'' =
     Some ''\<newline>AudioFilename: a.mp3 \<newline>PreviewMode: 07x\<newline>'' \<and>
   ws_digits '' 07x'' = Some ''07'' \<and>
   parseMetadata ''[general]\<newline>AudioFilename: a.mp3 \<newline>PreviewMode: 07x\<newline>[METADATA]\<newline>title:  T \<newline>Artist:A\<newline>[Difficulty]\<newline>CircleSize:4'' =
     \<lparr>title = Some ''T'', artist = Some ''A'', creator = None, version = None,
      audioFilename = Some ''a.mp3'', mode = Some 7, circleSize = Some (Num 4)\<rparr>"
proof -
  let ?s = "''[general]\<newline>AudioFilename: a.mp3 \<newline>PreviewMode: 07x\<newline>[METADATA]\<newline>title:  T \<newline>Artist:A\<newline>[Difficulty]\<newline>CircleSize:4''"
  let ?g = "''\<newline>AudioFilename: a.mp3 \<newline>PreviewMode: 07x\<newline>''"
  let ?m = "''\<newline>title:  T \<newline>Artist:A\<newline>''"
  let ?d = "''\<newline>CircleSize:4''"
  note m = metadata_extraction[of ?s]
  note fields = m[THEN conjunct2, THEN conjunct2, THEN conjunct2, THEN conjunct2]
  note f_audio = fields[THEN conjunct1]
  note f_mode = fields[THEN conjunct2, THEN conjunct1]
  note f_title = fields[THEN conjunct2, THEN conjunct2, THEN conjunct1]
  note f_artist = fields[THEN conjunct2, THEN conjunct2, THEN conjunct2, THEN conjunct1]
  note f_creator = fields[THEN conjunct2, THEN conjunct2, THEN conjunct2, THEN conjunct2,
      THEN conjunct1]
  note f_version = fields[THEN conjunct2, THEN conjunct2, THEN conjunct2, THEN conjunct2,
      THEN conjunct2, THEN conjunct1]
  note f_cs = fields[THEN conjunct2, THEN conjunct2, THEN conjunct2, THEN conjunct2,
      THEN conjunct2, THEN conjunct2, THEN conjunct1]
  note rest = fields[THEN conjunct2, THEN conjunct2, THEN conjunct2, THEN conjunct2,
      THEN conjunct2, THEN conjunct2, THEN conjunct2]
  note digits = rest[THEN conjunct2, THEN conjunct2, THEN conjunct1, THEN spec, THEN spec,
      of "'' 07x''" "''07''"]
  have "'' 07x'' = '' '' @ ''07'' @ ''x'' \<and> list_all is_space '' '' \<and> ''07'' \<noteq> [] \<and>
      list_all is_digit ''07'' \<and> (''x'' = [] \<or> \<not> is_digit (hd ''x''))"
    by (simp add: is_space_def is_digit_def)
  then have wd: "ws_digits '' 07x'' = Some ''07''"
    by (intro digits[THEN iffD2] exI)
  have g: "section_match ''[General]'' ?s = Some ?g" by code_simp
  have md: "section_match ''[Metadata]'' ?s = Some ?m" by code_simp
  have d: "section_match ''[Difficulty]'' ?s = Some ?d" by code_simp
  have km: "map_option parseInt (key_match ''Mode:'' ws_digits ?g) = Some 7" by code_simp
  have ka: "map_option trim (key_match ''AudioFilename:'' ws_dots ?g) = Some ''a.mp3''"
    by code_simp
  have kt: "map_option trim (key_match ''Title:'' ws_dots ?m) = Some ''T''" by code_simp
  have kr: "map_option trim (key_match ''Artist:'' ws_dots ?m) = Some ''A''" by code_simp
  have kc: "map_option trim (key_match ''Creator:'' ws_dots ?m) = None" by code_simp
  have kv: "map_option trim (key_match ''Version:'' ws_dots ?m) = None" by code_simp
  have ks: "key_match ''CircleSize:'' ws_number ?d = Some ''4''" by code_simp
  have pf: "parseFloat ''4'' = Num 4"
    by (simp add: parseFloat_def is_digit_def digits_val_def digit_val_def Let_def)
  have 1: "audioFilename (parseMetadata ?s) = Some ''a.mp3''"
    using f_audio by (simp only: g option.case ka)
  have 2: "mode (parseMetadata ?s) = Some 7"
    using f_mode by (simp only: g option.case km)
  have 3: "title (parseMetadata ?s) = Some ''T''"
    using f_title by (simp only: md option.case kt)
  have 4: "artist (parseMetadata ?s) = Some ''A''"
    using f_artist by (simp only: md option.case kr)
  have 5: "creator (parseMetadata ?s) = None"
    using f_creator by (simp only: md option.case kc)
  have 6: "version (parseMetadata ?s) = None"
    using f_version by (simp only: md option.case kv)
  have 7: "circleSize (parseMetadata ?s) = Some (Num 4)"
    using f_cs by (simp only: d option.case ks option.map pf)
  have "parseMetadata ?s =
     \<lparr>title = Some ''T'', artist = Some ''A'', creator = None, version = None,
      audioFilename = Some ''a.mp3'', mode = Some 7, circleSize = Some (Num 4)\<rparr>"
    using 1 2 3 4 5 6 7 by (cases "parseMetadata ?s") simp
  with g wd show ?thesis by (intro conjI)
qed

text \<open>
  The claim's words against the code. In the first text the only line that starts
  with \<^verbatim>\<open>[\<close> is the header, so the section of the claim runs to the end of the text
  and holds the line \<^verbatim>\<open>Artist:A\<close>; the code ends the section at the bracket in the
  title and leaves the artist unset. In the second text no line starts with
  \<^verbatim>\<open>Mode:\<close>; the code finds the key inside \<^verbatim>\<open>PreviewMode:\<close> and sets \<open>mode = 7\<close>.
\<close>

theorem metadata_reading_counterexample:
  "split_lines ''[Metadata]\<newline>Title:Song [TV Size]\<newline>Artist:A'' =
     [''[Metadata]'', ''Title:Song [TV Size]'', ''Artist:A''] \<and>
   parseMetadata ''[Metadata]\<newline>Title:Song [TV Size]\<newline>Artist:A'' =
     no_metadata\<lparr>title := Some ''Song''\<rparr> \<and>
   split_lines ''[General]\<newline>PreviewMode: 07x'' = [''[General]'', ''PreviewMode: 07x''] \<and>
   parseMetadata ''[General]\<newline>PreviewMode: 07x'' = no_metadata\<lparr>mode := Some 7\<rparr>"
  by code_simp

subsection \<open>Timing points\<close>

text \<open>
  The two numbers of a line the timing expression matches are decimal literals, so
  \<^verbatim>\<open>parseFloat\<close> never returns \<open>NaN\<close> for them: the \<open>NaN\<close> case of \<open>decimal\<close> is never
  taken by the parser.
\<close>

lemma takeWhile_digit_hd:
  "takeWhile is_digit z \<noteq> [] \<Longrightarrow> is_digit (hd (takeWhile is_digit z))"
  by (cases z) (auto split: if_splits)

lemma decimal1_parseFloat:
  assumes "decimal1 s = Some (t, r)"
  shows "parseFloat t \<noteq> NaN"
proof -
  define sg where "sg = (if take 1 s = ''-'' then ''-'' else [])"
  define ip where "ip = takeWhile is_digit (drop (length sg) s)"
  from assms have ne: "ip \<noteq> []"
    by (auto simp: decimal1_def digits1_def Let_def sg_def ip_def split: if_splits option.splits)
  from assms obtain X where t: "t = sg @ ip @ X"
    by (auto simp: decimal1_def digits1_def Let_def sg_def ip_def split: if_splits option.splits)
  have d: "is_digit (hd ip)" using ne unfolding ip_def by (rule takeWhile_digit_hd)
  then have nm: "hd ip \<noteq> CHR ''-''" by (auto simp: is_digit_def)
  from ne obtain a ip' where ip: "ip = a # ip'" by (cases ip) auto
  with d nm have a: "is_digit a" "a \<noteq> CHR ''-''" by simp_all
  show ?thesis
  proof (cases "sg = []")
    case True
    with t ip a show ?thesis by (simp add: parseFloat_def Let_def)
  next
    case False
    then have "sg = ''-''" by (simp add: sg_def split: if_splits)
    with t ip a show ?thesis by (simp add: parseFloat_def Let_def)
  qed
qed

lemma timingRegex_numbers:
  assumes "timingRegex line = Some (t, b, m, ss, si, v, u, e)"
  shows "parseFloat t \<noteq> NaN \<and> parseFloat b \<noteq> NaN"
proof -
  from assms obtain r1 r2 r3 where "decimal1 line = Some (t, r1)" "decimal1 r2 = Some (b, r3)"
    by (auto simp: timingRegex_def split: Option.bind_splits if_splits)
  then show ?thesis by (simp add: decimal1_parseFloat)
qed

text \<open>
  Without the header \<^verbatim>\<open>[TimingPoints]\<close> the timing points are the empty list.
\<close>

theorem timing_section_absent:
  "\<not> (\<exists>pre h post. s = pre @ h @ post \<and> ci_eq h ''[TimingPoints]'') \<Longrightarrow> parseTimingPoints s = []"
proof -
  assume "\<not> (\<exists>pre h post. s = pre @ h @ post \<and> ci_eq h ''[TimingPoints]'')"
  then have "after_first_ci ''[TimingPoints]'' s = None"
    by (rule after_first_ci_None[THEN iffD2])
  then show ?thesis by (simp add: parseTimingPoints_def split_second_def)
qed

theorem timing_section_absent_witness:
  "after_first_ci ''[TimingPoints]'' ''[HitObjects]\<newline>1,2,3,1,0'' = None \<and>
   parseTimingPoints ''[HitObjects]\<newline>1,2,3,1,0'' = []"
proof -
  have n: "after_first_ci ''[TimingPoints]'' ''[HitObjects]\<newline>1,2,3,1,0'' = None" by code_simp
  then have "\<not> (\<exists>pre h post. ''[HitObjects]\<newline>1,2,3,1,0'' = pre @ h @ post \<and> ci_eq h ''[TimingPoints]'')"
    by (rule after_first_ci_None[THEN iffD1])
  from timing_section_absent[OF this] n show ?thesis by simp
qed

subsection \<open>Further properties of the code\<close>

text \<open>
  \<open>parseOsuFile\<close> ends in the error exactly when the text has no header
  \<^verbatim>\<open>[HitObjects]\<close>, or when nothing stands between the first header and the next one (or
  the end of the text).
\<close>

theorem parseOsuFile_error_iff:
  "((\<exists>e. parseOsuFile s = Inl e) \<longleftrightarrow>
      split_second ''[HitObjects]'' s = None \<or> split_second ''[HitObjects]'' s = Some []) \<and>
   (split_second ''[HitObjects]'' s = None \<longleftrightarrow>
      \<not> (\<exists>pre h post. s = pre @ h @ post \<and> ci_eq h ''[HitObjects]''))"
proof
  show "(\<exists>e. parseOsuFile s = Inl e) \<longleftrightarrow>
      split_second ''[HitObjects]'' s = None \<or> split_second ''[HitObjects]'' s = Some []"
  proof
    assume "\<exists>e. parseOsuFile s = Inl e"
    then show "split_second ''[HitObjects]'' s = None \<or> split_second ''[HitObjects]'' s = Some []"
      using parseOsuFile_Inl by blast
  next
    assume a: "split_second ''[HitObjects]'' s = None \<or> split_second ''[HitObjects]'' s = Some []"
    then have "\<exists>e. parseHitObjects s (or4 (circleSize (parseMetadata s))) = Inl e"
      by (auto simp: parseHitObjects_def)
    then show "\<exists>e. parseOsuFile s = Inl e"
      by (auto simp: parseOsuFile_def Let_def)
  qed
  show "split_second ''[HitObjects]'' s = None \<longleftrightarrow>
      \<not> (\<exists>pre h post. s = pre @ h @ post \<and> ci_eq h ''[HitObjects]'')"
    using after_first_ci_None[of "''[HitObjects]''" s]
    by (auto simp: split_second_def split: option.splits)
qed

text \<open>
  A key without a value takes the next line as its value, since \<^verbatim>\<open>\s*\<close> walks over the
  line end; the key of that line is still found by its own match.
\<close>

theorem value_taken_from_next_line:
  "parseMetadata ''[Metadata]\<newline>Title:\<newline>Artist: X'' =
     no_metadata\<lparr>title := Some ''Artist: X'', artist := Some ''X''\<rparr>"
  by code_simp

text \<open>
  The hit-object section runs from its header to the end of the text, not to the next
  header: a timing line that follows it has five leading integers and is read as a hit
  object.
\<close>

theorem hit_object_section_runs_to_end_of_text:
  "parseHitObjects ''[HitObjects]\<newline>64,192,500,1,0\<newline>[TimingPoints]\<newline>1000,500,4,1,0,100,1,0'' 4 =
     Inr [\<lparr>x = 1000, y = 500, time = 4, type = 1, hitSound = 0, objectParams = Some ''100'',
           hitSample = Some ''1,0'', column = Some 7, isLongNote = Some False, endTime = Some 4\<rparr>,
          \<lparr>x = 64, y = 192, time = 500, type = 1, hitSound = 0, objectParams = None,
           hitSample = None, column = Some 0, isLongNote = Some False, endTime = Some 500\<rparr>]"
  by code_simp

text \<open>
  A 6th field followed by a comma and nothing else is captured as the 7th field, comma
  included, and the 6th is left unset: the long note below keeps \<open>endTime = time\<close>.
\<close>

theorem trailing_comma_moves_sixth_field:
  "hitObject 4 ''0,0,1000,128,0,5000:0:0:0:x,'' =
     Some \<lparr>x = 0, y = 0, time = 1000, type = 128, hitSound = 0, objectParams = None,
           hitSample = Some ''5000:0:0:0:x,'', column = Some 0, isLongNote = Some True,
           endTime = Some 1000\<rparr>"
  by code_simp

text \<open>
  A key count that is no integer makes \<open>organizeNotesByColumn\<close> throw on an object of
  the last column: \<^verbatim>\<open>CircleSize:4.5\<close> gives the key count 4.5 and the column 4 for
  \<open>x = 500\<close>, the array has 4 entries, and \<open>4 < 4.5\<close> passes the range check.
\<close>

theorem fractional_key_count_throws:
  "organizeNotesByColumn
     [\<lparr>x = 500, y = 0, time = 0, type = 1, hitSound = 0, objectParams = None,
       hitSample = None, column = Some 4, isLongNote = Some False, endTime = Some 0\<rparr>] (9 / 2) =
   Inl TypeError \<and>
   parseHitObjects ''[HitObjects]\<newline>500,0,0,1,0'' (9 / 2) =
     Inr [\<lparr>x = 500, y = 0, time = 0, type = 1, hitSound = 0, objectParams = None,
           hitSample = None, column = Some 4, isLongNote = Some False, endTime = Some 0\<rparr>] \<and>
   or4 (Some (parseFloat ''4.5'')) = 9 / 2"
proof (intro conjI)
  have f: "\<lfloor>(9::rat) / 2\<rfloor> = 4" by (simp add: floor_eq_iff)
  show "organizeNotesByColumn
     [\<lparr>x = 500, y = 0, time = 0, type = 1, hitSound = 0, objectParams = None,
       hitSample = None, column = Some 4, isLongNote = Some False, endTime = Some 0\<rparr>] (9 / 2) =
   Inl TypeError"
    by (simp add: organizeNotesByColumn_def col_of_def f)
  have h: "hitObjectRegex ''500,0,0,1,0'' = Some (''500'', ''0'', ''0'', ''1'', ''0'', None, None)"
    by code_simp
  have p: "parseInt ''500'' = 500" "parseInt ''0'' = 0" "parseInt ''1'' = 1" by code_simp+
  have c: "\<lfloor>(1125::rat) / 256\<rfloor> = 4" by (simp add: floor_eq_iff)
  have l: "map_option section_lines (split_second ''[HitObjects]'' ''[HitObjects]\<newline>500,0,0,1,0'')
      = Some [''500,0,0,1,0'']"
    and n: "split_second ''[HitObjects]'' ''[HitObjects]\<newline>500,0,0,1,0'' \<noteq> Some []"
    by code_simp+
  show "parseHitObjects ''[HitObjects]\<newline>500,0,0,1,0'' (9 / 2) =
     Inr [\<lparr>x = 500, y = 0, time = 0, type = 1, hitSound = 0, objectParams = None,
           hitSample = None, column = Some 4, isLongNote = Some False, endTime = Some 0\<rparr>]"
    using l n
    by (auto simp: parseHitObjects_def hitObject_def h p derive_def c HOLD_def falsy_num_def
        split: option.splits)
  show "or4 (Some (parseFloat ''4.5'')) = 9 / 2"
    by (simp add: or4_def parseFloat_def is_digit_def digits_val_def digit_val_def Let_def)
qed

text \<open>
  A decoded release time of 0 is replaced by \<open>time\<close>, a decoded 1 is kept: the guard
  \<^verbatim>\<open>!obj.endTime\<close> after the decoding is true for the number 0 as for a field that was
  never set.
\<close>

theorem release_time_zero_replaced:
  "hitObject 4 ''0,0,1000,128,0,0:0:0:0:x'' =
     Some \<lparr>x = 0, y = 0, time = 1000, type = 128, hitSound = 0,
           objectParams = Some ''0:0:0:0:x'', hitSample = None,
           column = Some 0, isLongNote = Some True, endTime = Some 1000\<rparr> \<and>
   endTimeMatch ''0:0:0:0:x'' = Some ''0'' \<and> parseInt ''0'' = 0 \<and>
   hitObject 4 ''0,0,1000,128,0,1:0:0:0:x'' =
     Some \<lparr>x = 0, y = 0, time = 1000, type = 128, hitSound = 0,
           objectParams = Some ''1:0:0:0:x'', hitSample = None,
           column = Some 0, isLongNote = Some True, endTime = Some 1\<rparr>"
  by code_simp

end
